theory Spec2Isabelle
  imports Main "HOL-Library.Word"
begin

section \<open>Data model\<close>

text \<open>
  The types of \<^verbatim>\<open>bitcoin/primitives.hpp\<close> and \<^verbatim>\<open>bitcoin/blockchain.hpp\<close> that
  \<^verbatim>\<open>transaction_indexer.cpp\<close> uses, with the fields it reads. A hash is 32 bytes, an
  index into a transaction's inputs or outputs is a \<^verbatim>\<open>uint32_t\<close>, an amount is a
  \<^verbatim>\<open>uint64_t\<close>. Input points and output points share one structure: a transaction hash
  and an index. Payment addresses and scripts are opaque to the indexer and stay type
  parameters (\<open>'addr\<close>, \<open>'script\<close>).
\<close>

type_synonym hash_digest = "256 word"

record point_type =
  hash :: hash_digest
  index :: "32 word"

type_synonym output_point = point_type
type_synonym input_point = point_type

text \<open>\<^verbatim>\<open>struct spend_info_type { input_point point; output_point previous_output; }\<close>\<close>

record spend_info_type =
  point :: input_point
  previous_output :: output_point

text \<open>\<^verbatim>\<open>struct output_info_type { output_point point; uint64_t value; }\<close>\<close>

record output_info_type =
  point :: output_point
  "value" :: "64 word"

type_synonym spend_info_list = "spend_info_type list"
type_synonym output_info_list = "output_info_type list"

text \<open>The fields of a transaction that \<^verbatim>\<open>do_index\<close> and \<^verbatim>\<open>do_deindex\<close> read.\<close>

record 'script transaction_input_type =
  previous_output :: output_point
  script :: 'script

record 'script transaction_output_type =
  "value" :: "64 word"
  script :: 'script

record 'script transaction_type =
  inputs :: "'script transaction_input_type list"
  outputs :: "'script transaction_output_type list"

text \<open>
  \<^verbatim>\<open>blockchain::history_row\<close>: an output, the height of its block, its value, the input
  that spends it and the height of that input's block. The header that declares the
  height fields is not among the sources; they are natural numbers here, which covers
  any unsigned width. The code compares them with \<^verbatim>\<open>max_height\<close> and writes 0.
\<close>

record history_row =
  "output" :: output_point
  output_height :: nat
  "value" :: "64 word"
  spend :: input_point
  spend_height :: nat

type_synonym history_list = "history_row list"

text \<open>\<^verbatim>\<open>std::error_code\<close> by its value: 0 is success, and \<^verbatim>\<open>if (ec)\<close> tests for non-zero.\<close>

type_synonym error_code = int


subsection \<open>Constants\<close>

text \<open>
  \<^verbatim>\<open>constexpr uint32_t max_height = std::numeric_limits<uint32_t>::max();\<close>
  (\<^verbatim>\<open>indexer_history_fetched\<close>).
\<close>

definition max_height :: nat where
  "max_height = 2 ^ 32 - 1"

text \<open>
  Modelled from the spec: \<^verbatim>\<open>null_hash\<close> and \<^verbatim>\<open>max_index\<close> come from
  \<^verbatim>\<open>bitcoin/constants.hpp\<close>, which is not among the sources. The specification gives
  them by name only, as the sentinel input point \<^verbatim>\<open>(null_hash, max_index)\<close> of an output
  that is not spent. They are taken here as the all-zero hash and the largest
  \<^verbatim>\<open>uint32_t\<close>; the general results below do not depend on the two values.
\<close>

definition null_hash :: hash_digest where
  "null_hash = 0"

definition max_index :: "32 word" where
  "max_index = - 1"

subsection \<open>Assertions\<close>

text \<open>
  Modelled from the spec: \<^verbatim>\<open>BITCOIN_ASSERT\<close> and \<^verbatim>\<open>BITCOIN_ASSERT_MSG\<close> come from
  \<^verbatim>\<open>bitcoin/utility/assert.hpp\<close>, which is not among the sources. The specification
  describes them as process-terminating assertions, so a failed assertion stops the
  operation at that point; this is the build without \<^verbatim>\<open>BITCOIN_DISABLE_ASSERTS\<close>, the
  one in which the conflict loop of \<^verbatim>\<open>indexer_history_fetched\<close> is compiled.
  One constructor per assertion of \<^verbatim>\<open>transaction_indexer.cpp\<close>:

  \<^item> \<open>Indexed_duplicate_times\<close>: \<^verbatim>\<open>index_does_not_exist(payaddr, point, map)\<close>,
    "Transaction is indexed duplicate times!" (\<^verbatim>\<open>do_index\<close>, \<^verbatim>\<open>do_deindex\<close>);
  \<^item> \<open>Cant_deindex_twice\<close>: \<^verbatim>\<open>it != map.end()\<close>, "Can't deindex transaction twice"
    (\<^verbatim>\<open>do_deindex\<close>);
  \<^item> \<open>Output_conflict\<close>: \<^verbatim>\<open>row.output != output_info.point\<close>;
  \<^item> \<open>Spend_height_set\<close>: \<^verbatim>\<open>row.spend_height == max_height\<close>;
  \<^item> \<open>Spend_point_set\<close>: \<^verbatim>\<open>row.spend == input_point{null_hash, max_index}\<close>;
  \<^item> \<open>Output_not_found\<close>: \<^verbatim>\<open>found\<close>, "Couldn't find output for adding spend"
    (the last four in \<^verbatim>\<open>indexer_history_fetched\<close>).
\<close>

datatype assert_failure =
    Indexed_duplicate_times
  | Cant_deindex_twice
  | Output_conflict
  | Spend_height_set
  | Spend_point_set
  | Output_not_found

section \<open>The address index\<close>

subsection \<open>The multimaps\<close>

text \<open>
  A \<^verbatim>\<open>std::unordered_multimap<payment_address, V>\<close> is modelled by what
  \<^verbatim>\<open>equal_range\<close> yields for each key: the list of the values stored under the key, in
  iteration order. An iterator is a key and a position in that key's range, or
  \<^verbatim>\<open>map.end()\<close>. The standard leaves open where in the range \<^verbatim>\<open>emplace\<close> puts a new
  element; the model appends it. The code looks entries up by their point, never by
  their position, and \<^verbatim>\<open>erase\<close> keeps the order of the other elements.
\<close>

type_synonym ('k, 'v) multimap = "'k \<Rightarrow> 'v list"

datatype 'k iterator = At 'k nat | End

definition equal_range :: "'k \<Rightarrow> ('k, 'v) multimap \<Rightarrow> 'v list" where
  "equal_range key m = m key"

definition emplace :: "'k \<Rightarrow> 'v \<Rightarrow> ('k, 'v) multimap \<Rightarrow> ('k, 'v) multimap" where
  "emplace key v m = m(key := m key @ [v])"

definition erase :: "'k \<Rightarrow> nat \<Rightarrow> ('k, 'v) multimap \<Rightarrow> ('k, 'v) multimap" where
  "erase key n m = m(key := take n (m key) @ drop (Suc n) (m key))"

record 'addr transaction_indexer =
  spends_map :: "('addr, spend_info_type) multimap"
  outputs_map :: "('addr, output_info_type) multimap"

text \<open>The constructor leaves both multimaps empty.\<close>

definition empty_indexer :: "'addr transaction_indexer" where
  "empty_indexer = \<lparr>spends_map = (\<lambda>payaddr. []), outputs_map = (\<lambda>payaddr. [])\<rparr>"

subsection \<open>query\<close>

text \<open>
  \<^verbatim>\<open>get_info_list\<close>: push every value of the key's range onto an empty list.
\<close>

definition get_info_list :: "'k \<Rightarrow> ('k, 'v) multimap \<Rightarrow> 'v list" where
  "get_info_list payaddr m = foldl (\<lambda>info v. info @ [v]) [] (equal_range payaddr m)"

text \<open>
  A call of the query handler: the error code and the two lists, in the order in which
  they are passed. The header declares the handler as
  \<^verbatim>\<open>void (const std::error_code& ec, const spend_info_list& spends,
  const output_info_list& outputs)\<close>; \<open>query_handler\<close> says that a call has a spend list
  in second place and an output list in third place.
\<close>

datatype query_argument = Spends spend_info_list | Outputs output_info_list

type_synonym handle_query_call = "error_code \<times> query_argument \<times> query_argument"

definition query_handler :: "handle_query_call \<Rightarrow> bool" where
  "query_handler call =
     (case call of
        (ec, Spends spend_infos, Outputs output_infos) \<Rightarrow> True
      | _ \<Rightarrow> False)"

text \<open>
  \<^verbatim>\<open>do_query\<close> calls \<^verbatim>\<open>handle_query(std::error_code(),
  get_info_list<output_info_list>(payaddr, outputs_map_),
  get_info_list<spend_info_list>(payaddr, spends_map_))\<close>.
\<close>

definition do_query :: "'addr \<Rightarrow> 'addr transaction_indexer \<Rightarrow> handle_query_call" where
  "do_query payaddr st =
     (0, Outputs (get_info_list payaddr (outputs_map st)),
         Spends (get_info_list payaddr (spends_map st)))"

subsection \<open>Looking up an entry\<close>

text \<open>
  \<^verbatim>\<open>find_entry\<close> walks the key's range and returns the first iterator whose value has
  the given point, or \<^verbatim>\<open>map.end()\<close>. The template reads \<^verbatim>\<open>it->second.point\<close> of
  either value type; the model takes that selector as \<open>point_of\<close>.
\<close>

fun find_in_range :: "('v \<Rightarrow> point_type) \<Rightarrow> point_type \<Rightarrow> 'v list \<Rightarrow> nat option" where
  "find_in_range point_of value_point [] = None"
| "find_in_range point_of value_point (v # vs) =
     (if point_of v = value_point then Some 0
      else map_option Suc (find_in_range point_of value_point vs))"

definition find_entry ::
  "('v \<Rightarrow> point_type) \<Rightarrow> 'k \<Rightarrow> point_type \<Rightarrow> ('k, 'v) multimap \<Rightarrow> 'k iterator" where
  "find_entry point_of key value_point m =
     (case find_in_range point_of value_point (equal_range key m) of
        Some n \<Rightarrow> At key n
      | None \<Rightarrow> End)"

definition index_does_not_exist ::
  "('v \<Rightarrow> point_type) \<Rightarrow> 'k \<Rightarrow> point_type \<Rightarrow> ('k, 'v) multimap \<Rightarrow> bool" where
  "index_does_not_exist point_of key value_point m =
     (find_entry point_of key value_point m = End)"

subsection \<open>Loops over a \<^verbatim>\<open>uint32_t\<close> counter\<close>

text \<open>
  \<^verbatim>\<open>for (uint32_t i = ...; i < n; ++i) body\<close>, where \<open>n\<close> is a \<^verbatim>\<open>size_t\<close>. The counter
  wraps around at \<open>2 ^ 32\<close>, so for \<open>n \<ge> 2 ^ 32\<close> the condition never fails and the loop
  ends only if the body stops it. The body either stops the operation (\<open>Inl\<close>, a failed
  assertion) or hands the next state on (\<open>Inr\<close>, also for \<^verbatim>\<open>continue\<close>).
\<close>

partial_function (option) for_u32 ::
  "nat \<Rightarrow> (32 word \<Rightarrow> 's \<Rightarrow> 'e + 's) \<Rightarrow> 32 word \<Rightarrow> 's \<Rightarrow> ('e + 's) option" where
  "for_u32 n body i s =
     (if unat i < n
      then (case body i s of Inl e \<Rightarrow> Some (Inl e) | Inr s' \<Rightarrow> for_u32 n body (i + 1) s')
      else Some (Inr s))"

subsection \<open>index\<close>

text \<open>
  An operation that stops at a failed assertion yields the assertion and the index as it
  is at that moment; one that runs to its end yields the index. Neither \<^verbatim>\<open>do_index\<close>
  nor \<^verbatim>\<open>do_deindex\<close> mentions its completion handler in its body.

  \<open>extract\<close> (script to payment address, false when there is none) and
  \<open>hash_transaction\<close> are collaborators and stay parameters. Each loop body below takes
  the element \<^verbatim>\<open>tx.inputs[i]\<close> or \<^verbatim>\<open>tx.outputs[i]\<close> and the counter.
\<close>

type_synonym 'addr outcome =
  "(assert_failure \<times> 'addr transaction_indexer) + 'addr transaction_indexer"

definition index_input ::
  "('script \<Rightarrow> 'addr option) \<Rightarrow> hash_digest \<Rightarrow> 'script transaction_input_type \<Rightarrow>
   32 word \<Rightarrow> 'addr transaction_indexer \<Rightarrow> 'addr outcome" where
  "index_input extract tx_hash input i st =
     (case extract (transaction_input_type.script input) of
        None \<Rightarrow> Inr st
      | Some payaddr \<Rightarrow>
          let pt = \<lparr>hash = tx_hash, index = i\<rparr> in
          if \<not> index_does_not_exist spend_info_type.point payaddr pt (spends_map st)
          then Inl (Indexed_duplicate_times, st)
          else Inr (st\<lparr>spends_map :=
                 emplace payaddr
                   \<lparr>spend_info_type.point = pt,
                    spend_info_type.previous_output =
                      transaction_input_type.previous_output input\<rparr>
                   (spends_map st)\<rparr>))"

definition index_output ::
  "('script \<Rightarrow> 'addr option) \<Rightarrow> hash_digest \<Rightarrow> 'script transaction_output_type \<Rightarrow>
   32 word \<Rightarrow> 'addr transaction_indexer \<Rightarrow> 'addr outcome" where
  "index_output extract tx_hash outp i st =
     (case extract (transaction_output_type.script outp) of
        None \<Rightarrow> Inr st
      | Some payaddr \<Rightarrow>
          let pt = \<lparr>hash = tx_hash, index = i\<rparr> in
          if \<not> index_does_not_exist output_info_type.point payaddr pt (outputs_map st)
          then Inl (Indexed_duplicate_times, st)
          else Inr (st\<lparr>outputs_map :=
                 emplace payaddr
                   \<lparr>output_info_type.point = pt,
                    output_info_type.value = transaction_output_type.value outp\<rparr>
                   (outputs_map st)\<rparr>))"

definition do_index ::
  "('script \<Rightarrow> 'addr option) \<Rightarrow> ('script transaction_type \<Rightarrow> hash_digest) \<Rightarrow>
   'script transaction_type \<Rightarrow> 'addr transaction_indexer \<Rightarrow> 'addr outcome option" where
  "do_index extract hash_transaction tx st =
     (let tx_hash = hash_transaction tx in
      case for_u32 (length (inputs tx))
             (\<lambda>i. index_input extract tx_hash (inputs tx ! unat i) i) 0 st of
        None \<Rightarrow> None
      | Some (Inl stop) \<Rightarrow> Some (Inl stop)
      | Some (Inr st') \<Rightarrow>
          for_u32 (length (outputs tx))
            (\<lambda>i. index_output extract tx_hash (outputs tx ! unat i) i) 0 st')"

subsection \<open>deindex\<close>

definition deindex_input ::
  "('script \<Rightarrow> 'addr option) \<Rightarrow> hash_digest \<Rightarrow> 'script transaction_input_type \<Rightarrow>
   32 word \<Rightarrow> 'addr transaction_indexer \<Rightarrow> 'addr outcome" where
  "deindex_input extract tx_hash input i st =
     (case extract (transaction_input_type.script input) of
        None \<Rightarrow> Inr st
      | Some payaddr \<Rightarrow>
          let pt = \<lparr>hash = tx_hash, index = i\<rparr> in
          (case find_entry spend_info_type.point payaddr pt (spends_map st) of
             End \<Rightarrow> Inl (Cant_deindex_twice, st)
           | At key n \<Rightarrow>
               (let st' = st\<lparr>spends_map := erase key n (spends_map st)\<rparr> in
                if \<not> index_does_not_exist spend_info_type.point payaddr pt (spends_map st')
                then Inl (Indexed_duplicate_times, st')
                else Inr st')))"

definition deindex_output ::
  "('script \<Rightarrow> 'addr option) \<Rightarrow> hash_digest \<Rightarrow> 'script transaction_output_type \<Rightarrow>
   32 word \<Rightarrow> 'addr transaction_indexer \<Rightarrow> 'addr outcome" where
  "deindex_output extract tx_hash outp i st =
     (case extract (transaction_output_type.script outp) of
        None \<Rightarrow> Inr st
      | Some payaddr \<Rightarrow>
          let pt = \<lparr>hash = tx_hash, index = i\<rparr> in
          (case find_entry output_info_type.point payaddr pt (outputs_map st) of
             End \<Rightarrow> Inl (Cant_deindex_twice, st)
           | At key n \<Rightarrow>
               (let st' = st\<lparr>outputs_map := erase key n (outputs_map st)\<rparr> in
                if \<not> index_does_not_exist output_info_type.point payaddr pt (outputs_map st')
                then Inl (Indexed_duplicate_times, st')
                else Inr st')))"

definition do_deindex ::
  "('script \<Rightarrow> 'addr option) \<Rightarrow> ('script transaction_type \<Rightarrow> hash_digest) \<Rightarrow>
   'script transaction_type \<Rightarrow> 'addr transaction_indexer \<Rightarrow> 'addr outcome option" where
  "do_deindex extract hash_transaction tx st =
     (let tx_hash = hash_transaction tx in
      case for_u32 (length (inputs tx))
             (\<lambda>i. deindex_input extract tx_hash (inputs tx ! unat i) i) 0 st of
        None \<Rightarrow> None
      | Some (Inl stop) \<Rightarrow> Some (Inl stop)
      | Some (Inr st') \<Rightarrow>
          for_u32 (length (outputs tx))
            (\<lambda>i. deindex_output extract tx_hash (outputs tx ! unat i) i) 0 st')"

section \<open>The history merger\<close>

text \<open>
  \<^verbatim>\<open>indexer_history_fetched(ec, outputs, spends, history, handle_fetch)\<close>. The result
  is the failed assertion at which it stops, or the arguments of its one call of
  \<^verbatim>\<open>handle_fetch\<close>.
\<close>

text \<open>The row that the first loop appends for an unconfirmed output.\<close>

definition unconfirmed_row :: "output_info_type \<Rightarrow> history_row" where
  "unconfirmed_row output_info =
     \<lparr>output = output_info_type.point output_info,
      output_height = 0,
      history_row.value = output_info_type.value output_info,
      spend = \<lparr>hash = null_hash, index = max_index\<rparr>,
      spend_height = max_height\<rparr>"

text \<open>The assertion loop over the rows, compiled unless \<^verbatim>\<open>BITCOIN_DISABLE_ASSERTS\<close>.\<close>

fun assert_no_conflict :: "output_info_type \<Rightarrow> history_list \<Rightarrow> assert_failure + unit" where
  "assert_no_conflict output_info [] = Inr ()"
| "assert_no_conflict output_info (row # rows) =
     (if \<not> output row \<noteq> output_info_type.point output_info then Inl Output_conflict
      else assert_no_conflict output_info rows)"

text \<open>"Just add in outputs."\<close>

fun add_outputs :: "output_info_list \<Rightarrow> history_list \<Rightarrow> assert_failure + history_list" where
  "add_outputs [] history = Inr history"
| "add_outputs (output_info # output_infos) history =
     (case assert_no_conflict output_info history of
        Inl stop \<Rightarrow> Inl stop
      | Inr _ \<Rightarrow> add_outputs output_infos (history @ [unconfirmed_row output_info]))"

text \<open>
  "Iterate history looking for the output we need": the inner loop for one spend. It
  yields \<^verbatim>\<open>found\<close> and the rows, the first matching row marked.
\<close>

fun mark_spend :: "spend_info_type \<Rightarrow> history_list \<Rightarrow> assert_failure + bool \<times> history_list" where
  "mark_spend spend_info [] = Inr (False, [])"
| "mark_spend spend_info (row # rows) =
     (if output row \<noteq> spend_info_type.previous_output spend_info
      then (case mark_spend spend_info rows of
              Inl stop \<Rightarrow> Inl stop
            | Inr (found, rows') \<Rightarrow> Inr (found, row # rows'))
      else if \<not> spend_height row = max_height then Inl Spend_height_set
      else if \<not> spend row = \<lparr>hash = null_hash, index = max_index\<rparr> then Inl Spend_point_set
      else Inr (True,
             row\<lparr>spend := spend_info_type.point spend_info, spend_height := 0\<rparr> # rows))"

text \<open>"Now mark spends."\<close>

fun mark_spends :: "spend_info_list \<Rightarrow> history_list \<Rightarrow> assert_failure + history_list" where
  "mark_spends [] history = Inr history"
| "mark_spends (spend_info # spend_infos) history =
     (case mark_spend spend_info history of
        Inl stop \<Rightarrow> Inl stop
      | Inr (found, history') \<Rightarrow>
          if \<not> found then Inl Output_not_found else mark_spends spend_infos history')"

definition indexer_history_fetched ::
  "error_code \<Rightarrow> output_info_list \<Rightarrow> spend_info_list \<Rightarrow> history_list \<Rightarrow>
   assert_failure + error_code \<times> history_list" where
  "indexer_history_fetched ec output_infos spend_infos history =
     (if ec \<noteq> 0 then Inr (ec, [])
      else case add_outputs output_infos history of
             Inl stop \<Rightarrow> Inl stop
           | Inr history' \<Rightarrow>
               (case mark_spends spend_infos history' of
                  Inl stop \<Rightarrow> Inl stop
                | Inr history'' \<Rightarrow> Inr (0, history'')))"

section \<open>Notions used in the statements\<close>

text \<open>
  A transaction touches the index when some input or output script of it yields a payment
  address; the others are skipped by \<^verbatim>\<open>do_index\<close> and \<^verbatim>\<open>do_deindex\<close>.
\<close>

definition addressed :: "('script \<Rightarrow> 'addr option) \<Rightarrow> 'script transaction_type \<Rightarrow> bool" where
  "addressed extract tx \<longleftrightarrow>
     (\<exists>input\<in>set (inputs tx). extract (transaction_input_type.script input) \<noteq> None) \<or>
     (\<exists>outp\<in>set (outputs tx). extract (transaction_output_type.script outp) \<noteq> None)"

text \<open>
  A transaction is not indexed when no input of it with an address has its point in the
  spends multimap under that address, and no output of it with an address has its point
  in the outputs multimap under that address. The test is \<^verbatim>\<open>index_does_not_exist\<close>,
  with the points that \<^verbatim>\<open>do_index\<close> would insert.
\<close>

definition not_indexed ::
  "('script \<Rightarrow> 'addr option) \<Rightarrow> ('script transaction_type \<Rightarrow> hash_digest) \<Rightarrow>
   'script transaction_type \<Rightarrow> 'addr transaction_indexer \<Rightarrow> bool" where
  "not_indexed extract hash_transaction tx st \<longleftrightarrow>
     list_all
       (\<lambda>i. case extract (transaction_input_type.script (inputs tx ! i)) of
              None \<Rightarrow> True
            | Some payaddr \<Rightarrow>
                index_does_not_exist spend_info_type.point payaddr
                  \<lparr>hash = hash_transaction tx, index = of_nat i\<rparr> (spends_map st))
       [0..<length (inputs tx)] \<and>
     list_all
       (\<lambda>i. case extract (transaction_output_type.script (outputs tx ! i)) of
              None \<Rightarrow> True
            | Some payaddr \<Rightarrow>
                index_does_not_exist output_info_type.point payaddr
                  \<lparr>hash = hash_transaction tx, index = of_nat i\<rparr> (outputs_map st))
       [0..<length (outputs tx)]"

section \<open>Auxiliary definitions for the proofs\<close>

text \<open>
  A loop over a list with the counter beside it: what \<open>for_u32\<close> computes when the
  list has fewer than \<open>2 ^ 32\<close> elements (lemma \<open>for_u32_list\<close>).
\<close>

primrec iterate_list :: "('a \<Rightarrow> 32 word \<Rightarrow> 's \<Rightarrow> 'e + 's) \<Rightarrow> 'a list \<Rightarrow> 32 word \<Rightarrow> 's \<Rightarrow> 'e + 's" where
  "iterate_list body [] i s = Inr s"
| "iterate_list body (x # xs) i s =
     (case body x i s of Inl e \<Rightarrow> Inl e | Inr s' \<Rightarrow> iterate_list body xs (i + 1) s')"

text \<open>
  The bodies of the four loops act on one multimap each, in the same way for spends and
  for outputs. \<open>index_entry\<close> and \<open>deindex_entry\<close> are that common form, on a multimap
  alone; \<open>on_spends\<close> and \<open>on_outputs\<close> put the multimap back into the index (lemmas
  \<open>index_input_entry\<close>, \<open>index_output_entry\<close>, \<open>deindex_input_entry\<close>,
  \<open>deindex_output_entry\<close>). \<open>entries\<close> lists the values that a list of inputs or
  outputs contributes to one address.
\<close>

type_synonym ('k, 'v) map_outcome =
  "(assert_failure \<times> ('k, 'v) multimap) + ('k, 'v) multimap"

definition index_entry ::
  "('v \<Rightarrow> point_type) \<Rightarrow> ('x \<Rightarrow> 'k option) \<Rightarrow> ('x \<Rightarrow> 32 word \<Rightarrow> 'v) \<Rightarrow>
   'x \<Rightarrow> 32 word \<Rightarrow> ('k, 'v) multimap \<Rightarrow> ('k, 'v) map_outcome" where
  "index_entry point_of addr_of mk x i m =
     (case addr_of x of
        None \<Rightarrow> Inr m
      | Some payaddr \<Rightarrow>
          if \<not> index_does_not_exist point_of payaddr (point_of (mk x i)) m
          then Inl (Indexed_duplicate_times, m)
          else Inr (emplace payaddr (mk x i) m))"

definition deindex_entry ::
  "('v \<Rightarrow> point_type) \<Rightarrow> ('x \<Rightarrow> 'k option) \<Rightarrow> ('x \<Rightarrow> 32 word \<Rightarrow> 'v) \<Rightarrow>
   'x \<Rightarrow> 32 word \<Rightarrow> ('k, 'v) multimap \<Rightarrow> ('k, 'v) map_outcome" where
  "deindex_entry point_of addr_of mk x i m =
     (case addr_of x of
        None \<Rightarrow> Inr m
      | Some payaddr \<Rightarrow>
          (case find_entry point_of payaddr (point_of (mk x i)) m of
             End \<Rightarrow> Inl (Cant_deindex_twice, m)
           | At key n \<Rightarrow>
               if \<not> index_does_not_exist point_of payaddr (point_of (mk x i)) (erase key n m)
               then Inl (Indexed_duplicate_times, erase key n m)
               else Inr (erase key n m)))"

primrec entries ::
  "('x \<Rightarrow> 'k option) \<Rightarrow> ('x \<Rightarrow> 32 word \<Rightarrow> 'v) \<Rightarrow> 'k \<Rightarrow> 'x list \<Rightarrow> 32 word \<Rightarrow> 'v list" where
  "entries addr_of mk a [] i = []"
| "entries addr_of mk a (x # xs) i =
     (if addr_of x = Some a then [mk x i] else []) @ entries addr_of mk a xs (i + 1)"

definition spend_of :: "hash_digest \<Rightarrow> 'script transaction_input_type \<Rightarrow> 32 word \<Rightarrow> spend_info_type" where
  "spend_of tx_hash input i =
     \<lparr>spend_info_type.point = \<lparr>hash = tx_hash, index = i\<rparr>,
      spend_info_type.previous_output = transaction_input_type.previous_output input\<rparr>"

definition output_of :: "hash_digest \<Rightarrow> 'script transaction_output_type \<Rightarrow> 32 word \<Rightarrow> output_info_type" where
  "output_of tx_hash outp i =
     \<lparr>output_info_type.point = \<lparr>hash = tx_hash, index = i\<rparr>,
      output_info_type.value = transaction_output_type.value outp\<rparr>"

definition on_spends ::
  "'addr transaction_indexer \<Rightarrow> ('addr, spend_info_type) map_outcome \<Rightarrow> 'addr outcome" where
  "on_spends st r =
     (case r of Inl (stop, m) \<Rightarrow> Inl (stop, st\<lparr>spends_map := m\<rparr>)
      | Inr m \<Rightarrow> Inr (st\<lparr>spends_map := m\<rparr>))"

definition on_outputs ::
  "'addr transaction_indexer \<Rightarrow> ('addr, output_info_type) map_outcome \<Rightarrow> 'addr outcome" where
  "on_outputs st r =
     (case r of Inl (stop, m) \<Rightarrow> Inl (stop, st\<lparr>outputs_map := m\<rparr>)
      | Inr m \<Rightarrow> Inr (st\<lparr>outputs_map := m\<rparr>))"

section \<open>Example data\<close>

text \<open>
  The rows of the specification's end-to-end scenarios: a confirmed unspent output
  \<open>(H1, 0)\<close> of value 500 at height 100, an unconfirmed spend \<open>(H2, 0)\<close> of it, an
  unconfirmed output \<open>(H3, 1)\<close> of value 250; and a confirmed output that is spent.
\<close>

definition example_confirmed :: history_row where
  "example_confirmed =
     \<lparr>output = \<lparr>hash = 1, index = 0\<rparr>, output_height = 100, history_row.value = 500,
      spend = \<lparr>hash = null_hash, index = max_index\<rparr>, spend_height = max_height\<rparr>"

definition example_spent :: history_row where
  "example_spent =
     \<lparr>output = \<lparr>hash = 4, index = 0\<rparr>, output_height = 90, history_row.value = 70,
      spend = \<lparr>hash = 5, index = 2\<rparr>, spend_height = 95\<rparr>"

definition example_spend :: spend_info_type where
  "example_spend =
     \<lparr>spend_info_type.point = \<lparr>hash = 2, index = 0\<rparr>,
      spend_info_type.previous_output = \<lparr>hash = 1, index = 0\<rparr>\<rparr>"

definition example_output :: output_info_type where
  "example_output =
     \<lparr>output_info_type.point = \<lparr>hash = 3, index = 1\<rparr>, output_info_type.value = 250\<rparr>"

definition example_merged :: history_list where
  "example_merged =
     [example_spent,
      example_confirmed\<lparr>spend := \<lparr>hash = 2, index = 0\<rparr>, spend_height := 0\<rparr>,
      unconfirmed_row example_output]"

text \<open>
  For the index: scripts and addresses are natural numbers, script 0 has no address and
  script \<open>n > 0\<close> yields address \<open>n\<close>. \<open>example_tx\<close>, with hash \<open>H3\<close>, has an input
  from address 5, an output to no address and the output \<open>(H3, 1)\<close> of value 250 to
  address 6; \<open>example_tx_no_address\<close> has no script with an address.
  \<open>example_indexed\<close> is the index after \<open>example_tx\<close> alone is indexed.
\<close>

definition example_extract :: "nat \<Rightarrow> nat option" where
  "example_extract s = (if s = 0 then None else Some s)"

definition example_hash :: "nat transaction_type \<Rightarrow> hash_digest" where
  "example_hash tx = of_nat (length (inputs tx) + length (outputs tx))"

definition example_tx :: "nat transaction_type" where
  "example_tx =
     \<lparr>inputs = [\<lparr>transaction_input_type.previous_output = \<lparr>hash = 1, index = 0\<rparr>,
                 transaction_input_type.script = 5\<rparr>],
      outputs = [\<lparr>transaction_output_type.value = 1, transaction_output_type.script = 0\<rparr>,
                 \<lparr>transaction_output_type.value = 250, transaction_output_type.script = 6\<rparr>]\<rparr>"

definition example_tx_no_address :: "nat transaction_type" where
  "example_tx_no_address =
     \<lparr>inputs = [\<lparr>transaction_input_type.previous_output = \<lparr>hash = 1, index = 0\<rparr>,
                 transaction_input_type.script = 0\<rparr>],
      outputs = [\<lparr>transaction_output_type.value = 10, transaction_output_type.script = 0\<rparr>]\<rparr>"

definition example_indexed :: "nat transaction_indexer" where
  "example_indexed =
     \<lparr>spends_map = (\<lambda>payaddr. [])
        (5 := [\<lparr>spend_info_type.point = \<lparr>hash = 3, index = 0\<rparr>,
                spend_info_type.previous_output = \<lparr>hash = 1, index = 0\<rparr>\<rparr>]),
      outputs_map = (\<lambda>payaddr. [])
        (6 := [\<lparr>output_info_type.point = \<lparr>hash = 3, index = 1\<rparr>,
                output_info_type.value = 250\<rparr>])\<rparr>"

section \<open>Properties of the loops\<close>

lemma for_u32_drop:
  assumes "length xs < 2 ^ 32" and "ys = drop (unat i) xs" and "unat i \<le> length xs"
  shows "for_u32 (length xs) (\<lambda>i. body (xs ! unat i) i) i s = Some (iterate_list body ys i s)"
  using assms(2,3)
proof (induction ys arbitrary: i s)
  case Nil
  then have "\<not> unat i < length xs" by simp
  then show ?case by (subst for_u32.simps) simp
next
  case (Cons y ys)
  from Cons.prems have lt: "unat i < length xs"
    by (metis drop_eq_Nil2 le_neq_implies_less list.distinct(1) order_refl drop_all)
  then have y: "xs ! unat i = y" and ys: "ys = drop (Suc (unat i)) xs"
    using Cons.prems(1) by (metis Cons_nth_drop_Suc list.inject)+
  have suc: "unat (i + 1) = Suc (unat i)"
    using lt assms(1) by (simp add: unat_word_ariths)
  have ih: "for_u32 (length xs) (\<lambda>i. body (xs ! unat i) i) (i + 1) s' =
      Some (iterate_list body ys (i + 1) s')" for s'
    using Cons.IH[of "i + 1" s'] ys suc lt by simp
  show ?case
    by (subst for_u32.simps) (simp add: lt y ih split: sum.splits)
qed

lemma for_u32_list:
  assumes "length xs < 2 ^ 32"
  shows "for_u32 (length xs) (\<lambda>i. body (xs ! unat i) i) 0 s = Some (iterate_list body xs 0 s)"
  using for_u32_drop[OF assms, of xs 0 body s] by simp

lemma for_u32_overflow:
  fixes body :: "32 word \<Rightarrow> 'a \<Rightarrow> 'b + 'a"
  assumes "for_u32 n body i s = Some r" and "2 ^ 32 \<le> n"
  shows "isl r"
proof -
  have "2 ^ 32 \<le> n \<longrightarrow> isl r"
  proof (rule for_u32.raw_induct[where P = "\<lambda>n body i s r. 2 ^ 32 \<le> n \<longrightarrow> isl r", OF _ assms(1)])
    fix f n and body :: "32 word \<Rightarrow> 'a \<Rightarrow> 'b + 'a" and i s r
    assume ih: "\<And>n' body' i' s' y. f n' body' i' s' = Some y \<Longrightarrow> 2 ^ 32 \<le> n' \<longrightarrow> isl y"
      and step: "(if unat i < n
          then case body i s of Inl e \<Rightarrow> Some (Inl e) | Inr s' \<Rightarrow> f n body (i + 1) s'
          else Some (Inr s)) = Some r"
    show "2 ^ 32 \<le> n \<longrightarrow> isl r"
    proof
      assume n: "2 ^ 32 \<le> n"
      have "unat i < 2 ^ 32" using unsigned_less[of i, where ?'a = nat] by simp
      with n have lt: "unat i < n" by simp
      show "isl r"
      proof (cases "body i s")
        case (Inl e)
        with step lt show ?thesis by auto
      next
        case (Inr s')
        with step lt have "f n body (i + 1) s' = Some r" by simp
        from ih[OF this] n show ?thesis by simp
      qed
    qed
  qed
  with assms(2) show ?thesis by simp
qed

section \<open>Properties of the address index\<close>

subsection \<open>query\<close>

lemma push_back_all: "foldl (\<lambda>info v. info @ [v]) acc vs = acc @ vs"
  by (induction vs arbitrary: acc) simp_all

lemma get_info_list_range: "get_info_list payaddr m = m payaddr"
  by (simp add: get_info_list_def equal_range_def push_back_all)

lemma do_query_lists:
  "do_query payaddr st = (0, Outputs (outputs_map st payaddr), Spends (spends_map st payaddr))"
  by (simp add: do_query_def get_info_list_range)

text \<open>The call never has the declared order of arguments, whatever the address and the index.\<close>

lemma do_query_order: "\<not> query_handler (do_query payaddr st)"
  by (simp add: do_query_lists query_handler_def)

text \<open>
  Claim C1. \<^verbatim>\<open>do_query\<close> hands over exactly the lists stored under the address (lemma
  \<open>do_query_lists\<close>), but in the order outputs, spends: with \<open>example_tx\<close> indexed,
  the query for address 5 passes the empty output list in second place and the list
  with the one spend in third place, which is not a call of the declared handler type
  \<^verbatim>\<open>(ec, spends, outputs)\<close>.
\<close>

theorem query_passes_outputs_before_spends:
  "do_query 5 example_indexed =
     (0, Outputs [],
         Spends [\<lparr>spend_info_type.point = \<lparr>hash = 3, index = 0\<rparr>,
                  spend_info_type.previous_output = \<lparr>hash = 1, index = 0\<rparr>\<rparr>]) \<and>
   \<not> query_handler (do_query 5 example_indexed)"
  by (simp add: do_query_lists example_indexed_def query_handler_def)

subsection \<open>find_in_range\<close>

lemma find_in_range_None: "find_in_range point_of p vs = None \<longleftrightarrow> p \<notin> point_of ` set vs"
  by (induction vs) auto

lemma find_in_range_append_hit:
  "p \<notin> point_of ` set vs \<Longrightarrow> point_of v = p \<Longrightarrow>
     find_in_range point_of p (vs @ v # ws) = Some (length vs)"
  by (induction vs) auto

lemma find_entry_End: "find_entry point_of key p m = End \<longleftrightarrow> p \<notin> point_of ` set (m key)"
  by (simp add: find_entry_def equal_range_def find_in_range_None[symmetric] split: option.splits)

lemma index_does_not_exist_iff:
  "index_does_not_exist point_of key p m \<longleftrightarrow> p \<notin> point_of ` set (m key)"
  by (simp add: index_does_not_exist_def find_entry_End)

lemma find_entry_At:
  "find_entry point_of key p m = At k n \<Longrightarrow> k = key \<and> n < length (m key)"
proof -
  have "find_in_range point_of p vs = Some n \<Longrightarrow> n < length vs" for vs n
    by (induction vs arbitrary: n) (auto split: if_splits)
  then show "find_entry point_of key p m = At k n \<Longrightarrow> k = key \<and> n < length (m key)"
    by (auto simp: find_entry_def equal_range_def split: option.splits)
qed

lemma find_entry_append_hit:
  assumes "m key = vs @ v # ws" and "p \<notin> point_of ` set vs" and "point_of v = p"
  shows "find_entry point_of key p m = At key (length vs)"
  using assms by (simp add: find_entry_def equal_range_def find_in_range_append_hit)

lemma erase_append_hit:
  assumes "m key = vs @ v # ws"
  shows "erase key (length vs) m = m(key := vs @ ws)"
  using assms by (simp add: erase_def)

subsection \<open>entries\<close>

lemma entries_mem:
  "v \<in> set (entries addr_of mk a xs i) \<longleftrightarrow>
     (\<exists>k<length xs. addr_of (xs ! k) = Some a \<and> v = mk (xs ! k) (i + of_nat k))"
proof (induction xs arbitrary: i)
  case Nil
  then show ?case by simp
next
  case (Cons x xs)
  have "(\<exists>k<length (x # xs). addr_of ((x # xs) ! k) = Some a \<and> v = mk ((x # xs) ! k) (i + of_nat k))
     \<longleftrightarrow> (addr_of x = Some a \<and> v = mk x i) \<or>
         (\<exists>k<length xs. addr_of (xs ! k) = Some a \<and> v = mk (xs ! k) (i + 1 + of_nat k))"
    (is "?L \<longleftrightarrow> ?A \<or> ?B")
  proof
    assume ?L
    then obtain k where k: "k < length (x # xs)" "addr_of ((x # xs) ! k) = Some a"
        "v = mk ((x # xs) ! k) (i + of_nat k)" by blast
    show "?A \<or> ?B"
    proof (cases k)
      case 0
      with k show ?thesis by simp
    next
      case (Suc j)
      with k have "j < length xs" "addr_of (xs ! j) = Some a" "v = mk (xs ! j) (i + 1 + of_nat j)"
        by (simp_all add: ac_simps)
      then show ?thesis by blast
    qed
  next
    assume "?A \<or> ?B"
    then show ?L
    proof
      assume ?A
      then show ?L by (intro exI[of _ 0]) simp
    next
      assume ?B
      then obtain j where "j < length xs" "addr_of (xs ! j) = Some a"
          "v = mk (xs ! j) (i + 1 + of_nat j)" by blast
      then show ?L by (intro exI[of _ "Suc j"]) (simp add: ac_simps)
    qed
  qed
  with Cons.IH[of "i + 1"] show ?case by auto
qed

subsection \<open>One entry\<close>

lemma index_entry_None:
  "addr_of x = None \<Longrightarrow> index_entry point_of addr_of mk x i m = Inr m"
  by (simp add: index_entry_def)

lemma index_entry_Some:
  "addr_of x = Some a \<Longrightarrow>
     index_entry point_of addr_of mk x i m =
       (if point_of (mk x i) \<in> point_of ` set (m a) then Inl (Indexed_duplicate_times, m)
        else Inr (m(a := m a @ [mk x i])))"
  by (simp add: index_entry_def index_does_not_exist_iff emplace_def)

lemma deindex_entry_None:
  "addr_of x = None \<Longrightarrow> deindex_entry point_of addr_of mk x i m = Inr m"
  by (simp add: deindex_entry_def)

lemma deindex_entry_absent:
  "addr_of x = Some a \<Longrightarrow> point_of (mk x i) \<notin> point_of ` set (m a) \<Longrightarrow>
     deindex_entry point_of addr_of mk x i m = Inl (Cant_deindex_twice, m)"
  using find_entry_End[of point_of a "point_of (mk x i)" m]
  by (simp add: deindex_entry_def)

lemma deindex_entry_hit:
  assumes "addr_of x = Some a" and "m a = vs @ mk x i # ws"
    and "point_of (mk x i) \<notin> point_of ` set vs"
    and "point_of (mk x i) \<notin> point_of ` set ws"
  shows "deindex_entry point_of addr_of mk x i m = Inr (m(a := vs @ ws))"
proof -
  have f: "find_entry point_of a (point_of (mk x i)) m = At a (length vs)"
    using assms(2,3) by (intro find_entry_append_hit) simp_all
  have e: "erase a (length vs) m = m(a := vs @ ws)"
    using assms(2) by (rule erase_append_hit)
  have "index_does_not_exist point_of a (point_of (mk x i)) (m(a := vs @ ws))"
    using assms(3,4) by (simp add: index_does_not_exist_iff image_Un)
  with f e assms(1) show ?thesis by (simp add: deindex_entry_def)
qed

lemma deindex_entry_stop:
  "deindex_entry point_of addr_of mk x i m = Inl (stop, m') \<Longrightarrow>
     stop = Cant_deindex_twice \<or> stop = Indexed_duplicate_times"
  by (auto simp: deindex_entry_def split: option.splits iterator.splits if_splits)

lemma index_entry_stop:
  "index_entry point_of addr_of mk x i m = Inl (stop, m') \<Longrightarrow> stop = Indexed_duplicate_times"
  by (auto simp: index_entry_def split: option.splits if_splits)

subsection \<open>The loops on one multimap\<close>

lemma index_entries_stop:
  "iterate_list (index_entry point_of addr_of mk) xs i m = Inl (stop, m') \<Longrightarrow>
     stop = Indexed_duplicate_times"
proof (induction xs arbitrary: i m)
  case Nil
  then show ?case by simp
next
  case (Cons x xs)
  then show ?case
    by (cases "index_entry point_of addr_of mk x i m") (auto dest: index_entry_stop)
qed

lemma deindex_entries_stop:
  "iterate_list (deindex_entry point_of addr_of mk) xs i m = Inl (stop, m') \<Longrightarrow>
     stop = Cant_deindex_twice \<or> stop = Indexed_duplicate_times"
proof (induction xs arbitrary: i m)
  case Nil
  then show ?case by simp
next
  case (Cons x xs)
  then show ?case
    by (cases "deindex_entry point_of addr_of mk x i m") (auto dest: deindex_entry_stop)
qed

lemma index_entries_result:
  assumes "iterate_list (index_entry point_of addr_of mk) xs i m = Inr m'"
  shows "m' = (\<lambda>a. m a @ entries addr_of mk a xs i) \<and>
         (\<forall>a. \<forall>v\<in>set (entries addr_of mk a xs i). point_of v \<notin> point_of ` set (m a))"
  using assms
proof (induction xs arbitrary: i m)
  case Nil
  then show ?case by simp
next
  case (Cons x xs)
  show ?case
  proof (cases "addr_of x")
    case None
    with Cons.prems have "iterate_list (index_entry point_of addr_of mk) xs (i + 1) m = Inr m'"
      by (simp add: index_entry_None)
    from Cons.IH[OF this] None show ?thesis by simp
  next
    case (Some b)
    let ?m1 = "m(b := m b @ [mk x i])"
    from Cons.prems Some have fresh: "point_of (mk x i) \<notin> point_of ` set (m b)"
      and rest: "iterate_list (index_entry point_of addr_of mk) xs (i + 1) ?m1 = Inr m'"
      by (auto simp: index_entry_Some split: if_splits)
    from Cons.IH[OF rest]
    have m': "m' = (\<lambda>a. ?m1 a @ entries addr_of mk a xs (i + 1))"
      and fr: "\<And>a v. v \<in> set (entries addr_of mk a xs (i + 1)) \<Longrightarrow>
                 point_of v \<notin> point_of ` set (?m1 a)"
      by blast+
    have "m' = (\<lambda>a. m a @ entries addr_of mk a (x # xs) i)"
      unfolding m' using Some by (auto simp: fun_eq_iff)
    moreover have "point_of v \<notin> point_of ` set (m a)"
      if "v \<in> set (entries addr_of mk a (x # xs) i)" for a v
    proof (cases "v \<in> set (entries addr_of mk a xs (i + 1))")
      case True
      from fr[OF this] show ?thesis by (auto split: if_splits)
    next
      case False
      with that Some have "a = b" "v = mk x i" by (auto split: if_splits)
      with fresh show ?thesis by simp
    qed
    ultimately show ?thesis by blast
  qed
qed

lemma later_index_differs:
  assumes "k < length xs" and "Suc (length xs) < 2 ^ 32"
  shows "i + 1 + of_nat k \<noteq> (i :: 32 word)"
proof
  assume "i + 1 + of_nat k = i"
  then have "(of_nat (Suc k) :: 32 word) = 0"
    by (simp add: ac_simps)
  moreover have "Suc k < 2 ^ LENGTH(32)" using assms by simp
  ultimately show False
    using of_nat_neq_0[of "Suc k", where ?'a = 32] by blast
qed

lemma entries_later_point:
  assumes pt: "\<And>x i. point_of (mk x i) = \<lparr>hash = h, index = i\<rparr>"
    and "v \<in> set (entries addr_of mk a xs (i + 1))" and "Suc (length xs) < 2 ^ 32"
  shows "point_of v \<noteq> point_of (mk x i)"
proof -
  from assms(2) obtain k where k: "k < length xs" "v = mk (xs ! k) (i + 1 + of_nat k)"
    unfolding entries_mem by blast
  from later_index_differs[OF k(1) assms(3)] show ?thesis
    unfolding k(2) pt by simp
qed

lemma index_entries_fresh:
  assumes pt: "\<And>x i. point_of (mk x i) = \<lparr>hash = h, index = i\<rparr>"
    and "length xs < 2 ^ 32"
    and "\<forall>a. \<forall>v\<in>set (entries addr_of mk a xs i). point_of v \<notin> point_of ` set (m a)"
  shows "iterate_list (index_entry point_of addr_of mk) xs i m =
           Inr (\<lambda>a. m a @ entries addr_of mk a xs i)"
  using assms(2,3)
proof (induction xs arbitrary: i m)
  case Nil
  then show ?case by simp
next
  case (Cons x xs)
  from Cons.prems(1) have len: "length xs < 2 ^ 32" "Suc (length xs) < 2 ^ 32" by simp_all
  have fr: "point_of v \<notin> point_of ` set (m a)"
    if "v \<in> set (entries addr_of mk a (x # xs) i)" for a v
    using Cons.prems(2) that by blast
  show ?case
  proof (cases "addr_of x")
    case None
    have "\<forall>a. \<forall>v\<in>set (entries addr_of mk a xs (i + 1)). point_of v \<notin> point_of ` set (m a)"
      using fr None by simp
    from Cons.IH[OF len(1) this] None show ?thesis
      by (simp add: index_entry_None)
  next
    case (Some b)
    let ?m1 = "m(b := m b @ [mk x i])"
    have fresh: "point_of (mk x i) \<notin> point_of ` set (m b)"
      using fr[of "mk x i" b] Some by simp
    have "\<forall>a. \<forall>v\<in>set (entries addr_of mk a xs (i + 1)). point_of v \<notin> point_of ` set (?m1 a)"
    proof (intro allI ballI)
      fix a v assume v: "v \<in> set (entries addr_of mk a xs (i + 1))"
      then have "point_of v \<notin> point_of ` set (m a)" using fr[of v a] by simp
      moreover have "point_of v \<noteq> point_of (mk x i)"
        using pt v len(2) by (rule entries_later_point)
      ultimately show "point_of v \<notin> point_of ` set (?m1 a)" by auto
    qed
    from Cons.IH[OF len(1) this]
    have "iterate_list (index_entry point_of addr_of mk) xs (i + 1) ?m1 =
        Inr (\<lambda>a. ?m1 a @ entries addr_of mk a xs (i + 1))" .
    moreover have "(\<lambda>a. ?m1 a @ entries addr_of mk a xs (i + 1)) =
        (\<lambda>a. m a @ entries addr_of mk a (x # xs) i)"
      using Some by (auto simp: fun_eq_iff)
    ultimately show ?thesis using Some fresh by (simp add: index_entry_Some)
  qed
qed

lemma deindex_entries_indexed:
  assumes pt: "\<And>x i. point_of (mk x i) = \<lparr>hash = h, index = i\<rparr>"
    and "length xs < 2 ^ 32"
    and "\<forall>a. \<forall>v\<in>set (entries addr_of mk a xs i). point_of v \<notin> point_of ` set (m a)"
  shows "iterate_list (deindex_entry point_of addr_of mk) xs i
           (\<lambda>a. m a @ entries addr_of mk a xs i) = Inr m"
  using assms(2,3)
proof (induction xs arbitrary: i)
  case Nil
  then show ?case by simp
next
  case (Cons x xs)
  from Cons.prems(1) have len: "length xs < 2 ^ 32" "Suc (length xs) < 2 ^ 32" by simp_all
  have fr: "point_of v \<notin> point_of ` set (m a)"
    if "v \<in> set (entries addr_of mk a (x # xs) i)" for a v
    using Cons.prems(2) that by blast
  have fr': "\<forall>a. \<forall>v\<in>set (entries addr_of mk a xs (i + 1)). point_of v \<notin> point_of ` set (m a)"
    using fr by simp
  note ih = Cons.IH[OF len(1) fr']
  let ?M = "\<lambda>a. m a @ entries addr_of mk a (x # xs) i"
  let ?M' = "\<lambda>a. m a @ entries addr_of mk a xs (i + 1)"
  show ?case
  proof (cases "addr_of x")
    case None
    then have "?M = ?M'" by simp
    with ih None show ?thesis by (simp add: deindex_entry_None)
  next
    case (Some b)
    have Mb: "?M b = m b @ mk x i # entries addr_of mk b xs (i + 1)"
      using Some by simp
    have a1: "point_of (mk x i) \<notin> point_of ` set (m b)"
      using fr[of "mk x i" b] Some by simp
    have a2: "point_of (mk x i) \<notin> point_of ` set (entries addr_of mk b xs (i + 1))"
    proof
      assume "point_of (mk x i) \<in> point_of ` set (entries addr_of mk b xs (i + 1))"
      then obtain v where v: "v \<in> set (entries addr_of mk b xs (i + 1))"
          "point_of v = point_of (mk x i)" by force
      have "point_of v \<noteq> point_of (mk x i)"
        using pt v(1) len(2) by (rule entries_later_point)
      with v(2) show False by simp
    qed
    have "deindex_entry point_of addr_of mk x i ?M =
        Inr (?M(b := m b @ entries addr_of mk b xs (i + 1)))"
      using Some Mb a1 a2 by (rule deindex_entry_hit)
    moreover have "?M(b := m b @ entries addr_of mk b xs (i + 1)) = ?M'"
      using Some by (auto simp: fun_eq_iff)
    ultimately show ?thesis using ih by simp
  qed
qed

lemma index_entries_present:
  assumes "\<forall>a. \<forall>v\<in>set (entries addr_of mk a xs i). point_of v \<in> point_of ` set (m a)"
  shows "iterate_list (index_entry point_of addr_of mk) xs i m =
           (if \<exists>x\<in>set xs. addr_of x \<noteq> None then Inl (Indexed_duplicate_times, m) else Inr m)"
  using assms
proof (induction xs arbitrary: i)
  case Nil
  then show ?case by simp
next
  case (Cons x xs)
  show ?case
  proof (cases "addr_of x")
    case None
    have "\<forall>a. \<forall>v\<in>set (entries addr_of mk a xs (i + 1)). point_of v \<in> point_of ` set (m a)"
      using Cons.prems None by simp
    from Cons.IH[OF this] None show ?thesis by (simp add: index_entry_None)
  next
    case (Some b)
    have "point_of (mk x i) \<in> point_of ` set (m b)"
      using Cons.prems Some by simp
    with Some show ?thesis by (simp add: index_entry_Some)
  qed
qed

lemma deindex_entries_absent:
  assumes "\<forall>a. \<forall>v\<in>set (entries addr_of mk a xs i). point_of v \<notin> point_of ` set (m a)"
  shows "iterate_list (deindex_entry point_of addr_of mk) xs i m =
           (if \<exists>x\<in>set xs. addr_of x \<noteq> None then Inl (Cant_deindex_twice, m) else Inr m)"
  using assms
proof (induction xs arbitrary: i)
  case Nil
  then show ?case by simp
next
  case (Cons x xs)
  show ?case
  proof (cases "addr_of x")
    case None
    have "\<forall>a. \<forall>v\<in>set (entries addr_of mk a xs (i + 1)). point_of v \<notin> point_of ` set (m a)"
      using Cons.prems None by simp
    from Cons.IH[OF this] None show ?thesis by (simp add: deindex_entry_None)
  next
    case (Some b)
    have "point_of (mk x i) \<notin> point_of ` set (m b)"
      using Cons.prems Some by simp
    with Some show ?thesis by (simp add: deindex_entry_absent)
  qed
qed

subsection \<open>From the loops on the index to the loops on one multimap\<close>

lemma iterate_on_spends:
  assumes "\<And>x i st. body x i st = on_spends st (g x i (spends_map st))"
  shows "iterate_list body xs i st = on_spends st (iterate_list g xs i (spends_map st))"
proof (induction xs arbitrary: i st)
  case Nil
  show ?case by (simp add: on_spends_def)
next
  case (Cons x xs)
  show ?case
  proof (cases "g x i (spends_map st)")
    case (Inl e)
    then show ?thesis by (simp add: assms on_spends_def split: prod.splits)
  next
    case (Inr m)
    then have b: "body x i st = Inr (st\<lparr>spends_map := m\<rparr>)"
      by (simp add: assms on_spends_def)
    show ?thesis
      by (simp add: b Inr Cons.IH on_spends_def split: sum.splits prod.splits)
  qed
qed

lemma iterate_on_outputs:
  assumes "\<And>x i st. body x i st = on_outputs st (g x i (outputs_map st))"
  shows "iterate_list body xs i st = on_outputs st (iterate_list g xs i (outputs_map st))"
proof (induction xs arbitrary: i st)
  case Nil
  show ?case by (simp add: on_outputs_def)
next
  case (Cons x xs)
  show ?case
  proof (cases "g x i (outputs_map st)")
    case (Inl e)
    then show ?thesis by (simp add: assms on_outputs_def split: prod.splits)
  next
    case (Inr m)
    then have b: "body x i st = Inr (st\<lparr>outputs_map := m\<rparr>)"
      by (simp add: assms on_outputs_def)
    show ?thesis
      by (simp add: b Inr Cons.IH on_outputs_def split: sum.splits prod.splits)
  qed
qed

lemma index_input_entry:
  "index_input extract tx_hash x i st =
     on_spends st (index_entry spend_info_type.point
       (\<lambda>input. extract (transaction_input_type.script input)) (spend_of tx_hash) x i
       (spends_map st))"
  by (simp add: index_input_def index_entry_def on_spends_def spend_of_def
      split: option.splits)

lemma index_output_entry:
  "index_output extract tx_hash x i st =
     on_outputs st (index_entry output_info_type.point
       (\<lambda>outp. extract (transaction_output_type.script outp)) (output_of tx_hash) x i
       (outputs_map st))"
  by (simp add: index_output_def index_entry_def on_outputs_def output_of_def
      split: option.splits)

lemma deindex_input_entry:
  "deindex_input extract tx_hash x i st =
     on_spends st (deindex_entry spend_info_type.point
       (\<lambda>input. extract (transaction_input_type.script input)) (spend_of tx_hash) x i
       (spends_map st))"
  by (simp add: deindex_input_def deindex_entry_def on_spends_def spend_of_def Let_def
      split: option.splits iterator.splits)

lemma deindex_output_entry:
  "deindex_output extract tx_hash x i st =
     on_outputs st (deindex_entry output_info_type.point
       (\<lambda>outp. extract (transaction_output_type.script outp)) (output_of tx_hash) x i
       (outputs_map st))"
  by (simp add: deindex_output_def deindex_entry_def on_outputs_def output_of_def Let_def
      split: option.splits iterator.splits)

lemma spend_of_point: "spend_info_type.point (spend_of h x i) = \<lparr>hash = h, index = i\<rparr>"
  by (simp add: spend_of_def)

lemma output_of_point: "output_info_type.point (output_of h x i) = \<lparr>hash = h, index = i\<rparr>"
  by (simp add: output_of_def)

text \<open>The two operations on a transaction whose lists fit the counter.\<close>

lemma do_index_bounded:
  assumes "length (inputs tx) < 2 ^ 32" and "length (outputs tx) < 2 ^ 32"
  shows "do_index extract hash_transaction tx st =
     Some (case iterate_list (index_input extract (hash_transaction tx)) (inputs tx) 0 st of
             Inl stop \<Rightarrow> Inl stop
           | Inr st' \<Rightarrow>
               iterate_list (index_output extract (hash_transaction tx)) (outputs tx) 0 st')"
  by (simp add: do_index_def for_u32_list[OF assms(1)] for_u32_list[OF assms(2)]
      split: sum.splits)

lemma do_deindex_bounded:
  assumes "length (inputs tx) < 2 ^ 32" and "length (outputs tx) < 2 ^ 32"
  shows "do_deindex extract hash_transaction tx st =
     Some (case iterate_list (deindex_input extract (hash_transaction tx)) (inputs tx) 0 st of
             Inl stop \<Rightarrow> Inl stop
           | Inr st' \<Rightarrow>
               iterate_list (deindex_output extract (hash_transaction tx)) (outputs tx) 0 st')"
  by (simp add: do_deindex_def for_u32_list[OF assms(1)] for_u32_list[OF assms(2)]
      split: sum.splits)

lemma do_index_completes_bounded:
  assumes "do_index extract hash_transaction tx st = Some (Inr st')"
  shows "length (inputs tx) < 2 ^ 32 \<and> length (outputs tx) < 2 ^ 32"
proof -
  let ?h = "hash_transaction tx"
  from assms obtain st1 where
    1: "for_u32 (length (inputs tx)) (\<lambda>i. index_input extract ?h (inputs tx ! unat i) i) 0 st
          = Some (Inr st1)"
    and 2: "for_u32 (length (outputs tx)) (\<lambda>i. index_output extract ?h (outputs tx ! unat i) i) 0 st1
          = Some (Inr st')"
    by (auto simp: do_index_def Let_def split: option.splits sum.splits)
  have "\<not> 2 ^ 32 \<le> length (inputs tx)"
    using for_u32_overflow[OF 1] by auto
  moreover have "\<not> 2 ^ 32 \<le> length (outputs tx)"
    using for_u32_overflow[OF 2] by auto
  ultimately show ?thesis by simp
qed

subsection \<open>The examples\<close>

lemmas example_tx_defs = empty_indexer_def example_extract_def example_hash_def
  example_tx_def example_tx_no_address_def example_indexed_def

lemmas index_defs = index_input_def index_output_def deindex_input_def deindex_output_def
  index_does_not_exist_def find_entry_def equal_range_def emplace_def erase_def

lemma example_tx_bounds:
  "length (inputs example_tx) < 2 ^ 32" "length (outputs example_tx) < 2 ^ 32"
  "length (inputs example_tx_no_address) < 2 ^ 32"
  "length (outputs example_tx_no_address) < 2 ^ 32"
  by (simp_all add: example_tx_def example_tx_no_address_def)

lemma example_index:
  "do_index example_extract example_hash example_tx empty_indexer = Some (Inr example_indexed)"
  unfolding do_index_bounded[OF example_tx_bounds(1,2)]
  by (simp add: example_tx_defs index_defs Let_def fun_eq_iff)

lemma example_index_again:
  "do_index example_extract example_hash example_tx example_indexed =
     Some (Inl (Indexed_duplicate_times, example_indexed))"
  unfolding do_index_bounded[OF example_tx_bounds(1,2)]
  by (simp add: example_tx_defs index_defs Let_def fun_eq_iff)

lemma example_deindex:
  "do_deindex example_extract example_hash example_tx example_indexed = Some (Inr empty_indexer)"
  unfolding do_deindex_bounded[OF example_tx_bounds(1,2)]
  by (simp add: example_tx_defs index_defs Let_def fun_eq_iff)

lemma example_deindex_again:
  "do_deindex example_extract example_hash example_tx empty_indexer =
     Some (Inl (Cant_deindex_twice, empty_indexer))"
  unfolding do_deindex_bounded[OF example_tx_bounds(1,2)]
  by (simp add: example_tx_defs index_defs Let_def fun_eq_iff)

lemma example_index_no_address:
  "do_index example_extract example_hash example_tx_no_address empty_indexer =
     Some (Inr empty_indexer)"
  unfolding do_index_bounded[OF example_tx_bounds(3,4)]
  by (simp add: example_tx_defs index_defs Let_def fun_eq_iff)

lemma example_deindex_no_address:
  "do_deindex example_extract example_hash example_tx_no_address empty_indexer =
     Some (Inr empty_indexer)"
  unfolding do_deindex_bounded[OF example_tx_bounds(3,4)]
  by (simp add: example_tx_defs index_defs Let_def fun_eq_iff)

lemma example_not_indexed:
  "not_indexed example_extract example_hash example_tx empty_indexer"
  "not_indexed example_extract example_hash example_tx_no_address empty_indexer"
  by (simp_all add: not_indexed_def example_tx_defs index_defs)

lemma example_addressed:
  "addressed example_extract example_tx"
  "\<not> addressed example_extract example_tx_no_address"
  by (simp_all add: addressed_def example_tx_defs)

subsection \<open>The outcomes of index and deindex\<close>

lemma index_inputs_entries:
  "iterate_list (index_input extract h) xs i st =
     on_spends st (iterate_list (index_entry spend_info_type.point
       (\<lambda>input. extract (transaction_input_type.script input)) (spend_of h)) xs i
       (spends_map st))"
  by (rule iterate_on_spends) (rule index_input_entry)

lemma index_outputs_entries:
  "iterate_list (index_output extract h) xs i st =
     on_outputs st (iterate_list (index_entry output_info_type.point
       (\<lambda>outp. extract (transaction_output_type.script outp)) (output_of h)) xs i
       (outputs_map st))"
  by (rule iterate_on_outputs) (rule index_output_entry)

lemma deindex_inputs_entries:
  "iterate_list (deindex_input extract h) xs i st =
     on_spends st (iterate_list (deindex_entry spend_info_type.point
       (\<lambda>input. extract (transaction_input_type.script input)) (spend_of h)) xs i
       (spends_map st))"
  by (rule iterate_on_spends) (rule deindex_input_entry)

lemma deindex_outputs_entries:
  "iterate_list (deindex_output extract h) xs i st =
     on_outputs st (iterate_list (deindex_entry output_info_type.point
       (\<lambda>outp. extract (transaction_output_type.script outp)) (output_of h)) xs i
       (outputs_map st))"
  by (rule iterate_on_outputs) (rule deindex_output_entry)

lemma on_spends_Inl:
  "on_spends st r = Inl (stop, st') \<Longrightarrow> \<exists>m. r = Inl (stop, m)"
  by (auto simp: on_spends_def split: sum.splits prod.splits)

lemma on_outputs_Inl:
  "on_outputs st r = Inl (stop, st') \<Longrightarrow> \<exists>m. r = Inl (stop, m)"
  by (auto simp: on_outputs_def split: sum.splits prod.splits)

lemma on_spends_Inr:
  "on_spends st r = Inr st' \<Longrightarrow> \<exists>m. r = Inr m \<and> st' = st\<lparr>spends_map := m\<rparr>"
  by (auto simp: on_spends_def split: sum.splits prod.splits)

lemma on_outputs_Inr:
  "on_outputs st r = Inr st' \<Longrightarrow> \<exists>m. r = Inr m \<and> st' = st\<lparr>outputs_map := m\<rparr>"
  by (auto simp: on_outputs_def split: sum.splits prod.splits)

lemma index_inputs_stop:
  assumes "iterate_list (index_input extract h) xs i st = Inl (stop, st')"
  shows "stop = Indexed_duplicate_times"
  using on_spends_Inl[OF assms[unfolded index_inputs_entries]] index_entries_stop by blast

lemma index_outputs_stop:
  assumes "iterate_list (index_output extract h) xs i st = Inl (stop, st')"
  shows "stop = Indexed_duplicate_times"
  using on_outputs_Inl[OF assms[unfolded index_outputs_entries]] index_entries_stop by blast

lemma deindex_inputs_stop:
  assumes "iterate_list (deindex_input extract h) xs i st = Inl (stop, st')"
  shows "stop = Cant_deindex_twice \<or> stop = Indexed_duplicate_times"
  using on_spends_Inl[OF assms[unfolded deindex_inputs_entries]] deindex_entries_stop by blast

lemma deindex_outputs_stop:
  assumes "iterate_list (deindex_output extract h) xs i st = Inl (stop, st')"
  shows "stop = Cant_deindex_twice \<or> stop = Indexed_duplicate_times"
  using on_outputs_Inl[OF assms[unfolded deindex_outputs_entries]] deindex_entries_stop by blast

text \<open>
  Claim C2, in the form that holds of the code. For a transaction with fewer than
  \<open>2 ^ 32\<close> inputs and fewer than \<open>2 ^ 32\<close> outputs, \<^verbatim>\<open>do_index\<close> and
  \<^verbatim>\<open>do_deindex\<close> end: each runs through all inputs and outputs, or stops at a failed
  assertion. In \<^verbatim>\<open>do_index\<close> that assertion is "Transaction is indexed duplicate
  times!", in \<^verbatim>\<open>do_deindex\<close> it is that one or "Can't deindex transaction twice". A
  failure is signalled in no other way.
\<close>

theorem index_deindex_stop_at_assertion:
  assumes "length (inputs tx) < 2 ^ 32" and "length (outputs tx) < 2 ^ 32"
  shows "(\<exists>r. do_index extract hash_transaction tx st = Some r \<and>
            (\<forall>stop st'. r = Inl (stop, st') \<longrightarrow> stop = Indexed_duplicate_times)) \<and>
         (\<exists>r. do_deindex extract hash_transaction tx st = Some r \<and>
            (\<forall>stop st'. r = Inl (stop, st') \<longrightarrow>
               stop = Cant_deindex_twice \<or> stop = Indexed_duplicate_times))"
proof
  let ?h = "hash_transaction tx"
  let ?r = "case iterate_list (index_input extract ?h) (inputs tx) 0 st of
             Inl stop \<Rightarrow> Inl stop
           | Inr st' \<Rightarrow> iterate_list (index_output extract ?h) (outputs tx) 0 st'"
  have "stop = Indexed_duplicate_times" if r: "?r = Inl (stop, st')" for stop st'
  proof (cases "iterate_list (index_input extract ?h) (inputs tx) 0 st")
    case (Inl e)
    with r have "iterate_list (index_input extract ?h) (inputs tx) 0 st = Inl (stop, st')"
      by simp
    then show ?thesis by (rule index_inputs_stop)
  next
    case (Inr st1)
    with r have "iterate_list (index_output extract ?h) (outputs tx) 0 st1 = Inl (stop, st')"
      by simp
    then show ?thesis by (rule index_outputs_stop)
  qed
  then show "\<exists>r. do_index extract hash_transaction tx st = Some r \<and>
            (\<forall>stop st'. r = Inl (stop, st') \<longrightarrow> stop = Indexed_duplicate_times)"
    unfolding do_index_bounded[OF assms] by blast
next
  let ?h = "hash_transaction tx"
  let ?r = "case iterate_list (deindex_input extract ?h) (inputs tx) 0 st of
             Inl stop \<Rightarrow> Inl stop
           | Inr st' \<Rightarrow> iterate_list (deindex_output extract ?h) (outputs tx) 0 st'"
  have "stop = Cant_deindex_twice \<or> stop = Indexed_duplicate_times"
    if r: "?r = Inl (stop, st')" for stop st'
  proof (cases "iterate_list (deindex_input extract ?h) (inputs tx) 0 st")
    case (Inl e)
    with r have "iterate_list (deindex_input extract ?h) (inputs tx) 0 st = Inl (stop, st')"
      by simp
    then show ?thesis by (rule deindex_inputs_stop)
  next
    case (Inr st1)
    with r have "iterate_list (deindex_output extract ?h) (outputs tx) 0 st1 = Inl (stop, st')"
      by simp
    then show ?thesis by (rule deindex_outputs_stop)
  qed
  then show "\<exists>r. do_deindex extract hash_transaction tx st = Some r \<and>
            (\<forall>stop st'. r = Inl (stop, st') \<longrightarrow>
               stop = Cant_deindex_twice \<or> stop = Indexed_duplicate_times)"
    unfolding do_deindex_bounded[OF assms] by blast
qed

theorem index_deindex_stop_at_assertion_witness:
  "length (inputs example_tx) < 2 ^ 32 \<and> length (outputs example_tx) < 2 ^ 32 \<and>
   (\<exists>r. do_index example_extract example_hash example_tx example_indexed = Some r \<and>
      (\<forall>stop st'. r = Inl (stop, st') \<longrightarrow> stop = Indexed_duplicate_times)) \<and>
   (\<exists>r. do_deindex example_extract example_hash example_tx example_indexed = Some r \<and>
      (\<forall>stop st'. r = Inl (stop, st') \<longrightarrow>
         stop = Cant_deindex_twice \<or> stop = Indexed_duplicate_times))"
  using example_tx_bounds(1,2)
    index_deindex_stop_at_assertion [OF example_tx_bounds(1,2),
      of example_extract example_hash example_indexed]
  by blast

text \<open>
  The outcome of indexing \<open>example_tx\<close> a second time is a failed assertion, which ends
  the process; it is not a result handed to a completion handler.
\<close>

theorem index_failure_is_assertion:
  "do_index example_extract example_hash example_tx empty_indexer =
     Some (Inr example_indexed) \<and>
   do_index example_extract example_hash example_tx example_indexed =
     Some (Inl (Indexed_duplicate_times, example_indexed))"
  using example_index example_index_again by (rule conjI)

lemma on_spends_same [simp]: "on_spends st (Inr (spends_map st)) = Inr st"
  and on_spends_stop_same [simp]: "on_spends st (Inl (stop, spends_map st)) = Inl (stop, st)"
  and on_outputs_same [simp]: "on_outputs st (Inr (outputs_map st)) = Inr st"
  and on_outputs_stop_same [simp]: "on_outputs st (Inl (stop, outputs_map st)) = Inl (stop, st)"
  by (simp_all add: on_spends_def on_outputs_def)

lemma do_index_result:
  assumes "do_index extract hash_transaction tx st = Some (Inr st')"
  defines "ai \<equiv> \<lambda>input. extract (transaction_input_type.script input)"
    and "ao \<equiv> \<lambda>outp. extract (transaction_output_type.script outp)"
    and "h \<equiv> hash_transaction tx"
  shows "st' = st\<lparr>spends_map := \<lambda>a. spends_map st a @ entries ai (spend_of h) a (inputs tx) 0,
                  outputs_map := \<lambda>a. outputs_map st a @ entries ao (output_of h) a (outputs tx) 0\<rparr>"
    and "\<forall>a. \<forall>v\<in>set (entries ai (spend_of h) a (inputs tx) 0).
           spend_info_type.point v \<notin> spend_info_type.point ` set (spends_map st a)"
    and "\<forall>a. \<forall>v\<in>set (entries ao (output_of h) a (outputs tx) 0).
           output_info_type.point v \<notin> output_info_type.point ` set (outputs_map st a)"
proof -
  from do_index_completes_bounded[OF assms(1)]
  have b: "length (inputs tx) < 2 ^ 32" "length (outputs tx) < 2 ^ 32" by simp_all
  from assms(1) obtain st1 where
    1: "iterate_list (index_input extract h) (inputs tx) 0 st = Inr st1"
    and 2: "iterate_list (index_output extract h) (outputs tx) 0 st1 = Inr st'"
    unfolding do_index_bounded[OF b] h_def by (auto split: sum.splits)
  from on_spends_Inr[OF 1[unfolded index_inputs_entries]] obtain m1 where
    m1: "iterate_list (index_entry spend_info_type.point ai (spend_of h)) (inputs tx) 0
           (spends_map st) = Inr m1" and st1: "st1 = st\<lparr>spends_map := m1\<rparr>"
    unfolding ai_def by blast
  from on_outputs_Inr[OF 2[unfolded index_outputs_entries]] obtain m2 where
    m2: "iterate_list (index_entry output_info_type.point ao (output_of h)) (outputs tx) 0
           (outputs_map st1) = Inr m2" and st': "st' = st1\<lparr>outputs_map := m2\<rparr>"
    unfolding ao_def by blast
  have o1: "outputs_map st1 = outputs_map st" using st1 by simp
  from index_entries_result[OF m1]
  show "\<forall>a. \<forall>v\<in>set (entries ai (spend_of h) a (inputs tx) 0).
           spend_info_type.point v \<notin> spend_info_type.point ` set (spends_map st a)"
    by blast
  from index_entries_result[OF m2[unfolded o1]]
  show "\<forall>a. \<forall>v\<in>set (entries ao (output_of h) a (outputs tx) 0).
           output_info_type.point v \<notin> output_info_type.point ` set (outputs_map st a)"
    by blast
  from index_entries_result[OF m1] index_entries_result[OF m2[unfolded o1]] st1 st'
  show "st' = st\<lparr>spends_map := \<lambda>a. spends_map st a @ entries ai (spend_of h) a (inputs tx) 0,
                  outputs_map := \<lambda>a. outputs_map st a @ entries ao (output_of h) a (outputs tx) 0\<rparr>"
    by simp
qed

text \<open>What a query passes after a transaction has been indexed.\<close>

lemma do_query_after_index:
  assumes "do_index extract hash_transaction tx st = Some (Inr st')"
  shows "do_query payaddr st' =
     (0,
      Outputs (outputs_map st payaddr @
        entries (\<lambda>outp. extract (transaction_output_type.script outp))
          (output_of (hash_transaction tx)) payaddr (outputs tx) 0),
      Spends (spends_map st payaddr @
        entries (\<lambda>input. extract (transaction_input_type.script input))
          (spend_of (hash_transaction tx)) payaddr (inputs tx) 0))"
  by (simp add: do_query_lists do_index_result(1)[OF assms])

text \<open>
  Claim C6, in the form that holds of the code. After \<^verbatim>\<open>do_index\<close> has run to its
  end on a transaction, a second \<^verbatim>\<open>do_index\<close> on the same transaction stops at the failed assertion "Transaction is
  indexed duplicate times!" with both multimaps as the first call left them, provided
  some input or output script of the transaction yields an address; for a transaction
  with no such script the second call runs to its end and changes nothing.
\<close>

theorem index_twice_stops:
  assumes "do_index extract hash_transaction tx st = Some (Inr st')"
  shows "do_index extract hash_transaction tx st' =
           Some (if addressed extract tx then Inl (Indexed_duplicate_times, st') else Inr st')"
proof -
  let ?ai = "\<lambda>input. extract (transaction_input_type.script input)"
  let ?ao = "\<lambda>outp. extract (transaction_output_type.script outp)"
  let ?h = "hash_transaction tx"
  from do_index_completes_bounded[OF assms]
  have b: "length (inputs tx) < 2 ^ 32" "length (outputs tx) < 2 ^ 32" by simp_all
  note r = do_index_result[OF assms]
  have s: "spends_map st' = (\<lambda>a. spends_map st a @ entries ?ai (spend_of ?h) a (inputs tx) 0)"
    and o: "outputs_map st' = (\<lambda>a. outputs_map st a @ entries ?ao (output_of ?h) a (outputs tx) 0)"
    by (simp_all add: r(1))
  have ps: "\<forall>a. \<forall>v\<in>set (entries ?ai (spend_of ?h) a (inputs tx) 0).
      spend_info_type.point v \<in> spend_info_type.point ` set (spends_map st' a)"
    unfolding s by simp
  have po: "\<forall>a. \<forall>v\<in>set (entries ?ao (output_of ?h) a (outputs tx) 0).
      output_info_type.point v \<in> output_info_type.point ` set (outputs_map st' a)"
    unfolding o by simp
  have 1: "iterate_list (index_input extract ?h) (inputs tx) 0 st' =
      (if \<exists>x\<in>set (inputs tx). ?ai x \<noteq> None then Inl (Indexed_duplicate_times, st') else Inr st')"
    unfolding index_inputs_entries index_entries_present[OF ps] by simp
  have 2: "iterate_list (index_output extract ?h) (outputs tx) 0 st' =
      (if \<exists>x\<in>set (outputs tx). ?ao x \<noteq> None then Inl (Indexed_duplicate_times, st') else Inr st')"
    unfolding index_outputs_entries index_entries_present[OF po] by simp
  show ?thesis
    unfolding do_index_bounded[OF b] 1 addressed_def by (auto simp: 2)
qed

theorem index_twice_stops_witness:
  "do_index example_extract example_hash example_tx empty_indexer =
     Some (Inr example_indexed) \<and>
   addressed example_extract example_tx \<and>
   do_index example_extract example_hash example_tx example_indexed =
     Some (Inl (Indexed_duplicate_times, example_indexed))"
  using example_index example_addressed(1) index_twice_stops [OF example_index]
  by simp

text \<open>
  Indexing \<open>example_tx_no_address\<close> again does not fail, and the failure on indexing
  \<open>example_tx\<close> again is a failed assertion.
\<close>

theorem index_twice_counterexample:
  "do_index example_extract example_hash example_tx_no_address empty_indexer =
     Some (Inr empty_indexer) \<and>
   do_index example_extract example_hash example_tx empty_indexer =
     Some (Inr example_indexed) \<and>
   do_index example_extract example_hash example_tx example_indexed =
     Some (Inl (Indexed_duplicate_times, example_indexed))"
  using example_index_no_address example_index example_index_again by blast

lemma not_indexed_entries:
  assumes "not_indexed extract hash_transaction tx st"
  defines "ai \<equiv> \<lambda>input. extract (transaction_input_type.script input)"
    and "ao \<equiv> \<lambda>outp. extract (transaction_output_type.script outp)"
    and "h \<equiv> hash_transaction tx"
  shows "\<forall>a. \<forall>v\<in>set (entries ai (spend_of h) a (inputs tx) 0).
           spend_info_type.point v \<notin> spend_info_type.point ` set (spends_map st a)"
    and "\<forall>a. \<forall>v\<in>set (entries ao (output_of h) a (outputs tx) 0).
           output_info_type.point v \<notin> output_info_type.point ` set (outputs_map st a)"
proof -
  show "\<forall>a. \<forall>v\<in>set (entries ai (spend_of h) a (inputs tx) 0).
           spend_info_type.point v \<notin> spend_info_type.point ` set (spends_map st a)"
  proof (intro allI ballI)
    fix a v assume "v \<in> set (entries ai (spend_of h) a (inputs tx) 0)"
    then obtain k where k: "k < length (inputs tx)" "ai (inputs tx ! k) = Some a"
        "v = spend_of h (inputs tx ! k) (of_nat k)"
      unfolding entries_mem by auto
    from assms(1) k(1) have "case ai (inputs tx ! k) of None \<Rightarrow> True
        | Some payaddr \<Rightarrow> index_does_not_exist spend_info_type.point payaddr
            \<lparr>hash = h, index = of_nat k\<rparr> (spends_map st)"
      unfolding not_indexed_def ai_def h_def by (simp add: list_all_iff)
    with k(2) show "spend_info_type.point v \<notin> spend_info_type.point ` set (spends_map st a)"
      unfolding k(3) spend_of_point by (simp add: index_does_not_exist_iff)
  qed
next
  show "\<forall>a. \<forall>v\<in>set (entries ao (output_of h) a (outputs tx) 0).
           output_info_type.point v \<notin> output_info_type.point ` set (outputs_map st a)"
  proof (intro allI ballI)
    fix a v assume "v \<in> set (entries ao (output_of h) a (outputs tx) 0)"
    then obtain k where k: "k < length (outputs tx)" "ao (outputs tx ! k) = Some a"
        "v = output_of h (outputs tx ! k) (of_nat k)"
      unfolding entries_mem by auto
    from assms(1) k(1) have "case ao (outputs tx ! k) of None \<Rightarrow> True
        | Some payaddr \<Rightarrow> index_does_not_exist output_info_type.point payaddr
            \<lparr>hash = h, index = of_nat k\<rparr> (outputs_map st)"
      unfolding not_indexed_def ao_def h_def by (simp add: list_all_iff)
    with k(2) show "output_info_type.point v \<notin> output_info_type.point ` set (outputs_map st a)"
      unfolding k(3) output_of_point by (simp add: index_does_not_exist_iff)
  qed
qed

text \<open>
  Claim C7, in the form that holds of the code. For a transaction that is not indexed,
  with fewer than \<open>2 ^ 32\<close> inputs and fewer than \<open>2 ^ 32\<close> outputs, \<^verbatim>\<open>do_deindex\<close> stops at the failed assertion
  "Can't deindex transaction twice" with both multimaps unchanged, provided some input or
  output script of the transaction yields an address; for a transaction with no such
  script it runs to its end and changes nothing.
\<close>

theorem deindex_not_indexed_stops:
  assumes "not_indexed extract hash_transaction tx st"
    and "length (inputs tx) < 2 ^ 32" and "length (outputs tx) < 2 ^ 32"
  shows "do_deindex extract hash_transaction tx st =
           Some (if addressed extract tx then Inl (Cant_deindex_twice, st) else Inr st)"
proof -
  let ?ai = "\<lambda>input. extract (transaction_input_type.script input)"
  let ?ao = "\<lambda>outp. extract (transaction_output_type.script outp)"
  let ?h = "hash_transaction tx"
  note n = not_indexed_entries[OF assms(1)]
  have 1: "iterate_list (deindex_input extract ?h) (inputs tx) 0 st =
      (if \<exists>x\<in>set (inputs tx). ?ai x \<noteq> None then Inl (Cant_deindex_twice, st) else Inr st)"
    unfolding deindex_inputs_entries deindex_entries_absent[OF n(1)] by simp
  have 2: "iterate_list (deindex_output extract ?h) (outputs tx) 0 st =
      (if \<exists>x\<in>set (outputs tx). ?ao x \<noteq> None then Inl (Cant_deindex_twice, st) else Inr st)"
    unfolding deindex_outputs_entries deindex_entries_absent[OF n(2)] by simp
  show ?thesis
    unfolding do_deindex_bounded[OF assms(2,3)] 1 addressed_def by (auto simp: 2)
qed

theorem deindex_not_indexed_stops_witness:
  "not_indexed example_extract example_hash example_tx empty_indexer \<and>
   length (inputs example_tx) < 2 ^ 32 \<and> length (outputs example_tx) < 2 ^ 32 \<and>
   addressed example_extract example_tx \<and>
   do_deindex example_extract example_hash example_tx empty_indexer =
     Some (Inl (Cant_deindex_twice, empty_indexer))"
  using example_not_indexed(1) example_tx_bounds(1,2) example_addressed(1)
    deindex_not_indexed_stops [OF example_not_indexed(1) example_tx_bounds(1,2)]
  by simp

text \<open>
  Deindexing \<open>example_tx_no_address\<close>, which is not indexed, does not fail.
\<close>

theorem deindex_not_indexed_counterexample:
  "not_indexed example_extract example_hash example_tx_no_address empty_indexer \<and>
   do_deindex example_extract example_hash example_tx_no_address empty_indexer =
     Some (Inr empty_indexer)"
  using example_not_indexed(2) example_deindex_no_address by (rule conjI)

text \<open>
  Claim C8. For a transaction that is not indexed, with fewer than \<open>2 ^ 32\<close> inputs and
  fewer than \<open>2 ^ 32\<close> outputs, \<^verbatim>\<open>do_index\<close> runs to its end, \<^verbatim>\<open>do_deindex\<close> on the
  resulting index runs to its end too, and afterwards the query for every address (so
  for every address the transaction touches) passes the same lists as before.
\<close>

theorem index_deindex_round_trip:
  assumes "not_indexed extract hash_transaction tx st"
    and "length (inputs tx) < 2 ^ 32" and "length (outputs tx) < 2 ^ 32"
  shows "\<exists>st'. do_index extract hash_transaction tx st = Some (Inr st') \<and>
           (\<exists>st''. do_deindex extract hash_transaction tx st' = Some (Inr st'') \<and>
              (\<forall>payaddr. do_query payaddr st'' = do_query payaddr st))"
proof -
  let ?ai = "\<lambda>input. extract (transaction_input_type.script input)"
  let ?ao = "\<lambda>outp. extract (transaction_output_type.script outp)"
  let ?h = "hash_transaction tx"
  let ?S = "\<lambda>a. spends_map st a @ entries ?ai (spend_of ?h) a (inputs tx) 0"
  let ?O = "\<lambda>a. outputs_map st a @ entries ?ao (output_of ?h) a (outputs tx) 0"
  let ?st1 = "st\<lparr>spends_map := ?S\<rparr>"
  let ?st' = "st\<lparr>spends_map := ?S, outputs_map := ?O\<rparr>"
  let ?st2 = "st\<lparr>outputs_map := ?O\<rparr>"
  note n = not_indexed_entries[OF assms(1)]
  have i1: "iterate_list (index_input extract ?h) (inputs tx) 0 st = Inr ?st1"
    unfolding index_inputs_entries
      index_entries_fresh[of spend_info_type.point "spend_of ?h", OF spend_of_point assms(2) n(1)]
    by (simp add: on_spends_def)
  have i2: "iterate_list (index_output extract ?h) (outputs tx) 0 ?st1 = Inr ?st'"
    using index_entries_fresh[of output_info_type.point "output_of ?h", OF output_of_point assms(3) n(2)]
    unfolding index_outputs_entries by (simp add: on_outputs_def)
  have i: "do_index extract hash_transaction tx st = Some (Inr ?st')"
    unfolding do_index_bounded[OF assms(2,3)] i1 by (simp add: i2)
  have d1: "iterate_list (deindex_input extract ?h) (inputs tx) 0 ?st' = Inr ?st2"
    using deindex_entries_indexed[of spend_info_type.point "spend_of ?h", OF spend_of_point assms(2) n(1)]
    unfolding deindex_inputs_entries by (simp add: on_spends_def)
  have d2: "iterate_list (deindex_output extract ?h) (outputs tx) 0 ?st2 = Inr st"
    using deindex_entries_indexed[of output_info_type.point "output_of ?h", OF output_of_point assms(3) n(2)]
    unfolding deindex_outputs_entries by (simp add: on_outputs_def)
  have d: "do_deindex extract hash_transaction tx ?st' = Some (Inr st)"
    unfolding do_deindex_bounded[OF assms(2,3)] d1 by (simp add: d2)
  from i d show ?thesis by blast
qed

theorem index_deindex_round_trip_witness:
  "not_indexed example_extract example_hash example_tx empty_indexer \<and>
   length (inputs example_tx) < 2 ^ 32 \<and> length (outputs example_tx) < 2 ^ 32 \<and>
   (\<exists>st'. do_index example_extract example_hash example_tx empty_indexer = Some (Inr st') \<and>
      (\<exists>st''. do_deindex example_extract example_hash example_tx st' = Some (Inr st'') \<and>
         (\<forall>payaddr. do_query payaddr st'' = do_query payaddr empty_indexer)))"
  using example_not_indexed(1) example_tx_bounds(1,2)
    index_deindex_round_trip [OF example_not_indexed(1) example_tx_bounds(1,2)]
  by blast

section \<open>Properties of the history merger\<close>

lemma max_height_neq_0: "max_height \<noteq> 0"
  by (simp add: max_height_def)

lemmas example_defs = example_confirmed_def example_spent_def example_spend_def
  example_output_def example_merged_def

lemma example_merge:
  "indexer_history_fetched 0 [example_output] [example_spend] [example_spent, example_confirmed]
     = Inr (0, example_merged)"
  by (simp add: indexer_history_fetched_def unconfirmed_row_def example_defs)

lemma example_add_outputs:
  "add_outputs [example_output] [example_spent, example_confirmed]
     = Inr [example_spent, example_confirmed, unconfirmed_row example_output]"
  by (simp add: example_defs)

lemma mark_spend_length:
  "mark_spend s rows = Inr (found, rows') \<Longrightarrow> length rows' = length rows"
  by (induction rows arbitrary: found rows') (auto split: if_splits sum.splits)

lemma mark_spend_not_found:
  "mark_spend s rows = Inr (False, rows') \<Longrightarrow>
     rows' = rows \<and> spend_info_type.previous_output s \<notin> output ` set rows"
  by (induction rows arbitrary: rows') (auto split: if_splits sum.splits)

lemma mark_spend_absent:
  "spend_info_type.previous_output s \<notin> output ` set rows \<Longrightarrow> mark_spend s rows = Inr (False, rows)"
  by (induction rows) auto

lemma mark_spend_found:
  "mark_spend s rows = Inr (True, rows') \<Longrightarrow>
     \<exists>i<length rows.
        output (rows ! i) = spend_info_type.previous_output s \<and>
        (\<forall>j<i. output (rows ! j) \<noteq> spend_info_type.previous_output s) \<and>
        spend_height (rows ! i) = max_height \<and>
        spend (rows ! i) = \<lparr>hash = null_hash, index = max_index\<rparr> \<and>
        rows' = rows[i := (rows ! i)\<lparr>spend := spend_info_type.point s, spend_height := 0\<rparr>]"
proof (induction rows arbitrary: rows')
  case Nil
  then show ?case by simp
next
  case (Cons row rows)
  show ?case
  proof (cases "output row = spend_info_type.previous_output s")
    case True
    with Cons.prems show ?thesis
      by (intro exI[of _ 0]) (auto split: if_splits)
  next
    case False
    with Cons.prems obtain r where r: "mark_spend s rows = Inr (True, r)" "rows' = row # r"
      by (auto split: sum.splits)
    from Cons.IH[OF r(1)] obtain i where i: "i < length rows"
        "output (rows ! i) = spend_info_type.previous_output s"
        "\<forall>j<i. output (rows ! j) \<noteq> spend_info_type.previous_output s"
        "spend_height (rows ! i) = max_height"
        "spend (rows ! i) = \<lparr>hash = null_hash, index = max_index\<rparr>"
        "r = rows[i := (rows ! i)\<lparr>spend := spend_info_type.point s, spend_height := 0\<rparr>]"
      by blast
    show ?thesis
    proof (intro exI[of _ "Suc i"] conjI allI impI)
      fix j assume "j < Suc i"
      then show "output ((row # rows) ! j) \<noteq> spend_info_type.previous_output s"
        using False i(3) by (cases j) auto
    qed (use i r in auto)
  qed
qed


lemma mark_spend_row:
  assumes "mark_spend s rows = Inr (found, rows')" and "i < length rows"
  shows "rows' ! i = rows ! i \<or>
         (output (rows ! i) = spend_info_type.previous_output s \<and>
          spend_height (rows ! i) = max_height \<and>
          spend (rows ! i) = \<lparr>hash = null_hash, index = max_index\<rparr> \<and>
          rows' ! i = (rows ! i)\<lparr>spend := spend_info_type.point s, spend_height := 0\<rparr>)"
proof (cases found)
  case False
  with assms(1) have "mark_spend s rows = Inr (False, rows')" by simp
  from mark_spend_not_found[OF this] show ?thesis by simp
next
  case True
  with assms(1) have "mark_spend s rows = Inr (True, rows')" by simp
  from mark_spend_found[OF this] obtain k where k: "k < length rows"
      "output (rows ! k) = spend_info_type.previous_output s"
      "spend_height (rows ! k) = max_height"
      "spend (rows ! k) = \<lparr>hash = null_hash, index = max_index\<rparr>"
      "rows' = rows[k := (rows ! k)\<lparr>spend := spend_info_type.point s, spend_height := 0\<rparr>]"
    by blast
  show ?thesis
  proof (cases "i = k")
    case True
    have "rows' ! i = (rows ! i)\<lparr>spend := spend_info_type.point s, spend_height := 0\<rparr>"
      unfolding k(5) True using k(1) by (rule nth_list_update_eq)
    with k(2,3,4) True show ?thesis by blast
  next
    case False
    have "rows' ! i = rows ! i"
      unfolding k(5) using False by (simp add: nth_list_update_neq)
    then show ?thesis by blast
  qed
qed

lemma mark_spend_unique:
  assumes "mark_spend s rows = Inr (True, rows')" and "i < length rows"
    and "\<forall>j<length rows. output (rows ! j) = spend_info_type.previous_output s \<longrightarrow> j = i"
  shows "rows' ! i = (rows ! i)\<lparr>spend := spend_info_type.point s, spend_height := 0\<rparr>"
proof -
  from mark_spend_found[OF assms(1)] obtain k where k: "k < length rows"
      "output (rows ! k) = spend_info_type.previous_output s"
      "rows' = rows[k := (rows ! k)\<lparr>spend := spend_info_type.point s, spend_height := 0\<rparr>]"
    by blast
  from k(1,2) assms(3) have "k = i" by blast
  show ?thesis
    unfolding k(3) \<open>k = i\<close> using assms(2) by (rule nth_list_update_eq)
qed

lemma mark_spends_length:
  "mark_spends ss rows = Inr rows' \<Longrightarrow> length rows' = length rows"
proof (induction ss arbitrary: rows)
  case Nil
  then show ?case by simp
next
  case (Cons s ss)
  then show ?case
    by (auto split: sum.splits if_splits dest: mark_spend_length)
qed

lemma mark_spends_row:
  assumes "mark_spends ss rows = Inr rows'" and "i < length rows"
  shows "rows' ! i = rows ! i \<or>
         (\<exists>s\<in>set ss.
            output (rows ! i) = spend_info_type.previous_output s \<and>
            spend_height (rows ! i) = max_height \<and>
            spend (rows ! i) = \<lparr>hash = null_hash, index = max_index\<rparr> \<and>
            rows' ! i = (rows ! i)\<lparr>spend := spend_info_type.point s, spend_height := 0\<rparr>)"
  using assms
proof (induction ss arbitrary: rows)
  case Nil
  then show ?case by simp
next
  case (Cons s ss)
  from Cons.prems(1) obtain mid where mid: "mark_spend s rows = Inr (True, mid)"
      "mark_spends ss mid = Inr rows'"
    by (auto split: sum.splits if_splits)
  have len: "length mid = length rows" using mid(1) by (rule mark_spend_length)
  from Cons.IH[OF mid(2)] Cons.prems(2) len
  consider "rows' ! i = mid ! i"
    | t where "t \<in> set ss" "spend_height (mid ! i) = max_height"
        "rows' ! i = (mid ! i)\<lparr>spend := spend_info_type.point t, spend_height := 0\<rparr>"
        "output (mid ! i) = spend_info_type.previous_output t"
        "spend (mid ! i) = \<lparr>hash = null_hash, index = max_index\<rparr>"
    by auto
  then show ?case
  proof cases
    case 1
    with mark_spend_row[OF mid(1) Cons.prems(2)] show ?thesis by auto
  next
    case 2
    from mark_spend_row[OF mid(1) Cons.prems(2)] 2(2) have "mid ! i = rows ! i"
      by (auto simp: max_height_neq_0)
    with 2 show ?thesis by auto
  qed
qed

lemma mark_spends_write_once:
  assumes "mark_spends ss rows = Inr rows'" and "i < length rows"
    and "spend_height (rows ! i) \<noteq> max_height"
  shows "rows' ! i = rows ! i"
  using mark_spends_row[OF assms(1,2)] assms(3) by auto

lemma mark_spends_output:
  assumes "mark_spends ss rows = Inr rows'"
  shows "map output rows' = map output rows"
proof (rule nth_equalityI)
  show "length (map output rows') = length (map output rows)"
    using assms by (simp add: mark_spends_length)
next
  fix i assume "i < length (map output rows')"
  then have i: "i < length rows" using assms by (simp add: mark_spends_length)
  from mark_spends_row[OF assms i] have "output (rows' ! i) = output (rows ! i)" by auto
  with i assms show "map output rows' ! i = map output rows ! i"
    by (simp add: mark_spends_length)
qed

lemma mark_spends_append:
  "mark_spends (xs @ ys) rows =
     (case mark_spends xs rows of Inl stop \<Rightarrow> Inl stop | Inr mid \<Rightarrow> mark_spends ys mid)"
  by (induction xs arbitrary: rows) (auto split: sum.splits)

lemma mark_spends_marks:
  assumes "mark_spends ss rows = Inr rows'" and "s \<in> set ss" and "i < length rows"
    and "\<forall>j<length rows. output (rows ! j) = spend_info_type.previous_output s \<longrightarrow> j = i"
  shows "rows' ! i = (rows ! i)\<lparr>spend := spend_info_type.point s, spend_height := 0\<rparr>"
  using assms
proof (induction ss arbitrary: rows)
  case Nil
  from Nil.prems(2) show ?case by simp
next
  case (Cons x xs)
  from Cons.prems(1) obtain mid where mid: "mark_spend x rows = Inr (True, mid)"
      "mark_spends xs mid = Inr rows'"
    by (auto split: sum.splits if_splits)
  have len: "length mid = length rows" using mid(1) by (rule mark_spend_length)
  show ?case
  proof (cases "x = s")
    case True
    have m: "mid ! i = (rows ! i)\<lparr>spend := spend_info_type.point s, spend_height := 0\<rparr>"
      using mid(1) Cons.prems(3,4) unfolding True by (rule mark_spend_unique)
    have "spend_height (mid ! i) \<noteq> max_height"
      unfolding m using max_height_neq_0 by simp
    moreover have "i < length mid" using len Cons.prems(3) by simp
    ultimately have "rows' ! i = mid ! i"
      using mid(2) by (intro mark_spends_write_once)
    then show ?thesis unfolding m .
  next
    case False
    with Cons.prems(2) have s: "s \<in> set xs" by simp
    have u: "\<forall>j<length mid. output (mid ! j) = spend_info_type.previous_output s \<longrightarrow> j = i"
    proof (intro allI impI)
      fix j assume j: "j < length mid" "output (mid ! j) = spend_info_type.previous_output s"
      have jr: "j < length rows" using j(1) len by simp
      from mark_spend_row[OF mid(1) jr] have "output (mid ! j) = output (rows ! j)"
        by auto
      with j(2) have "output (rows ! j) = spend_info_type.previous_output s" by simp
      with jr Cons.prems(4) show "j = i" by blast
    qed
    have "i < length mid" using len Cons.prems(3) by simp
    from Cons.IH[OF mid(2) s this u]
    have r: "rows' ! i = (mid ! i)\<lparr>spend := spend_info_type.point s, spend_height := 0\<rparr>" .
    from mark_spend_row[OF mid(1) Cons.prems(3)]
    consider "mid ! i = rows ! i"
      | "mid ! i = (rows ! i)\<lparr>spend := spend_info_type.point x, spend_height := 0\<rparr>"
      by blast
    then show ?thesis
    proof cases
      case 1
      show ?thesis unfolding r 1 ..
    next
      case 2
      show ?thesis unfolding r 2 by simp
    qed
  qed
qed

lemma mark_spends_unmatched:
  assumes "s \<in> set ss"
    and "spend_info_type.previous_output s \<notin> output ` set rows"
  shows "\<exists>stop. mark_spends ss rows = Inl stop"
  using assms
proof (induction ss arbitrary: rows)
  case Nil
  then show ?case by simp
next
  case (Cons x xs)
  show ?case
  proof (cases "mark_spend x rows")
    case (Inl stop)
    then show ?thesis by simp
  next
    case (Inr r)
    obtain found mid where r: "r = (found, mid)" by (cases r)
    show ?thesis
    proof (cases found)
      case False
      with Inr r show ?thesis by simp
    next
      case True
      with Inr r have m: "mark_spend x rows = Inr (True, mid)" by simp
      from mark_spend_found[OF m] obtain k where "k < length rows"
          "output (rows ! k) = spend_info_type.previous_output x"
        by blast
      then have "spend_info_type.previous_output x \<in> output ` set rows"
        by (metis imageI nth_mem)
      with Cons.prems(2) have "x \<noteq> s" by blast
      with Cons.prems(1) have s: "s \<in> set xs" by simp
      have "mark_spends [x] rows = Inr mid" using m by simp
      from mark_spends_output[OF this] have "output ` set mid = output ` set rows"
        by (metis set_map)
      with Cons.prems(2) have "spend_info_type.previous_output s \<notin> output ` set mid" by simp
      from Cons.IH[OF s this] m show ?thesis by simp
    qed
  qed
qed

lemma add_outputs_rows:
  "add_outputs os rows = Inr rows' \<Longrightarrow> rows' = rows @ map unconfirmed_row os"
proof (induction os arbitrary: rows)
  case Nil
  then show ?case by simp
next
  case (Cons a os)
  from Cons.prems have "add_outputs os (rows @ [unconfirmed_row a]) = Inr rows'"
    by (simp split: sum.splits)
  from Cons.IH[OF this] show ?case by simp
qed


lemma indexer_history_fetched_steps:
  assumes "indexer_history_fetched 0 os ss hist = Inr (ec, res)"
  shows "ec = 0 \<and> add_outputs os hist = Inr (hist @ map unconfirmed_row os) \<and>
         mark_spends ss (hist @ map unconfirmed_row os) = Inr res"
proof -
  from assms obtain acc where acc: "add_outputs os hist = Inr acc"
    and rest: "mark_spends ss acc = Inr res" "ec = 0"
    by (auto simp: indexer_history_fetched_def split: sum.splits)
  from add_outputs_rows[OF acc] acc rest show ?thesis by simp
qed

lemma mark_spends_only_spend:
  assumes "mark_spends ss rows = Inr rows'" and "i < length rows"
  shows "\<exists>a b. rows' ! i = (rows ! i)\<lparr>spend := a, spend_height := b\<rparr>"
  using mark_spends_row[OF assms]
proof (elim disjE bexE conjE)
  assume "rows' ! i = rows ! i"
  then have "rows' ! i =
      (rows ! i)\<lparr>spend := spend (rows ! i), spend_height := spend_height (rows ! i)\<rparr>"
    by simp
  then show ?thesis by (intro exI)
next
  fix s
  assume "rows' ! i = (rows ! i)\<lparr>spend := spend_info_type.point s, spend_height := 0\<rparr>"
  then show ?thesis by (intro exI)
qed

text \<open>
  Claim C10. When the merge hands a result to \<^verbatim>\<open>handle_fetch\<close>, the confirmed rows are
  all there, at their positions and before the new rows: the result has one row for each
  confirmed row followed by one row for each unconfirmed output; a confirmed row keeps
  its \<open>output\<close>, \<open>output_height\<close> and \<open>value\<close> and differs from the input row at most in
  \<open>spend\<close> and \<open>spend_height\<close>; each appended row is the row built from its unconfirmed
  output, again up to \<open>spend\<close> and \<open>spend_height\<close>.
\<close>

theorem merge_keeps_confirmed_rows:
  assumes "indexer_history_fetched 0 output_infos spend_infos history = Inr (ec, result)"
  shows "length result = length history + length output_infos \<and>
         (\<forall>i<length history.
            output (result ! i) = output (history ! i) \<and>
            output_height (result ! i) = output_height (history ! i) \<and>
            history_row.value (result ! i) = history_row.value (history ! i) \<and>
            (\<exists>a b. result ! i = (history ! i)\<lparr>spend := a, spend_height := b\<rparr>)) \<and>
         (\<forall>j<length output_infos.
            \<exists>a b. result ! (length history + j) =
              (unconfirmed_row (output_infos ! j))\<lparr>spend := a, spend_height := b\<rparr>)"
proof -
  let ?acc = "history @ map unconfirmed_row output_infos"
  from indexer_history_fetched_steps[OF assms]
  have ms: "mark_spends spend_infos ?acc = Inr result" by simp
  have len: "length result = length history + length output_infos"
    using mark_spends_length[OF ms] by simp
  have conf: "\<exists>a b. result ! i = (history ! i)\<lparr>spend := a, spend_height := b\<rparr>"
    if "i < length history" for i
  proof -
    from that have "i < length ?acc" by simp
    from mark_spends_only_spend[OF ms this] that show ?thesis
      by (simp add: nth_append)
  qed
  have new: "\<exists>a b. result ! (length history + j) =
      (unconfirmed_row (output_infos ! j))\<lparr>spend := a, spend_height := b\<rparr>"
    if "j < length output_infos" for j
  proof -
    from that have "length history + j < length ?acc" by simp
    from mark_spends_only_spend[OF ms this] that show ?thesis
      by (simp add: nth_append)
  qed
  have fields: "output (result ! i) = output (history ! i) \<and>
            output_height (result ! i) = output_height (history ! i) \<and>
            history_row.value (result ! i) = history_row.value (history ! i)"
    if "i < length history" for i
  proof -
    from conf[OF that] obtain a b
      where "result ! i = (history ! i)\<lparr>spend := a, spend_height := b\<rparr>" by blast
    then show ?thesis by simp
  qed
  from len conf new fields show ?thesis by blast
qed

theorem merge_keeps_confirmed_rows_witness:
  "indexer_history_fetched 0 [example_output] [example_spend] [example_spent, example_confirmed]
     = Inr (0, example_merged) \<and>
   length example_merged = length [example_spent, example_confirmed] + length [example_output] \<and>
   output (example_merged ! 1) = output example_confirmed \<and>
   output_height (example_merged ! 1) = output_height example_confirmed \<and>
   history_row.value (example_merged ! 1) = history_row.value example_confirmed \<and>
   (\<exists>a b. example_merged ! 1 = example_confirmed\<lparr>spend := a, spend_height := b\<rparr>) \<and>
   (\<exists>a b. example_merged ! 2 =
      (unconfirmed_row example_output)\<lparr>spend := a, spend_height := b\<rparr>)"
proof -
  note t = merge_keeps_confirmed_rows [OF example_merge]
  from t have len: "length example_merged =
      length [example_spent, example_confirmed] + length [example_output]"
    by (rule conjunct1)
  from t have "\<forall>i<length [example_spent, example_confirmed].
      output (example_merged ! i) = output ([example_spent, example_confirmed] ! i) \<and>
      output_height (example_merged ! i) = output_height ([example_spent, example_confirmed] ! i) \<and>
      history_row.value (example_merged ! i) =
        history_row.value ([example_spent, example_confirmed] ! i) \<and>
      (\<exists>a b. example_merged ! i =
         ([example_spent, example_confirmed] ! i)\<lparr>spend := a, spend_height := b\<rparr>)"
    by blast
  then have "1 < length [example_spent, example_confirmed] \<longrightarrow>
      output (example_merged ! 1) = output ([example_spent, example_confirmed] ! 1) \<and>
      output_height (example_merged ! 1) = output_height ([example_spent, example_confirmed] ! 1) \<and>
      history_row.value (example_merged ! 1) =
        history_row.value ([example_spent, example_confirmed] ! 1) \<and>
      (\<exists>a b. example_merged ! 1 =
         ([example_spent, example_confirmed] ! 1)\<lparr>spend := a, spend_height := b\<rparr>)"
    by (rule spec)
  then have c: "output (example_merged ! 1) = output ([example_spent, example_confirmed] ! 1) \<and>
      output_height (example_merged ! 1) = output_height ([example_spent, example_confirmed] ! 1) \<and>
      history_row.value (example_merged ! 1) =
        history_row.value ([example_spent, example_confirmed] ! 1) \<and>
      (\<exists>a b. example_merged ! 1 =
         ([example_spent, example_confirmed] ! 1)\<lparr>spend := a, spend_height := b\<rparr>)"
    by simp
  from t have "\<forall>j<length [example_output].
      \<exists>a b. example_merged ! (length [example_spent, example_confirmed] + j) =
         (unconfirmed_row ([example_output] ! j))\<lparr>spend := a, spend_height := b\<rparr>"
    by blast
  then have n: "\<exists>a b. example_merged ! (length [example_spent, example_confirmed] + 0) =
         (unconfirmed_row ([example_output] ! 0))\<lparr>spend := a, spend_height := b\<rparr>"
    by blast
  from example_merge len c n show ?thesis
    by (simp add: numeral_2_eq_2)
qed

text \<open>
  Claim C3. Let \<open>accumulated\<close> be the row list after the first loop (the confirmed rows
  and the rows added from the unconfirmed outputs), and let the merge hand a result to
  \<^verbatim>\<open>handle_fetch\<close>. For every unconfirmed spend whose \<open>previous_output\<close> is the output
  of exactly one accumulated row, that row has in the result \<open>spend\<close> equal to the spend's
  input point and \<open>spend_height\<close> equal to 0, and its \<open>output\<close>, \<open>output_height\<close> and
  \<open>value\<close> are those of the accumulated row.
\<close>

theorem merge_marks_spend:
  assumes "indexer_history_fetched 0 output_infos spend_infos history = Inr (ec, result)"
    and "add_outputs output_infos history = Inr accumulated"
    and "spend_info \<in> set spend_infos"
    and "i < length accumulated"
    and "\<forall>j<length accumulated.
           output (accumulated ! j) = spend_info_type.previous_output spend_info \<longleftrightarrow> j = i"
  shows "spend (result ! i) = spend_info_type.point spend_info \<and>
         spend_height (result ! i) = 0 \<and>
         output (result ! i) = output (accumulated ! i) \<and>
         output_height (result ! i) = output_height (accumulated ! i) \<and>
         history_row.value (result ! i) = history_row.value (accumulated ! i)"
proof -
  from indexer_history_fetched_steps[OF assms(1)] assms(2)
  have ms: "mark_spends spend_infos accumulated = Inr result" by simp
  have u: "\<forall>j<length accumulated.
      output (accumulated ! j) = spend_info_type.previous_output spend_info \<longrightarrow> j = i"
    using assms(5) by blast
  have "result ! i =
      (accumulated ! i)\<lparr>spend := spend_info_type.point spend_info, spend_height := 0\<rparr>"
    using ms assms(3,4) u by (rule mark_spends_marks)
  then show ?thesis by simp
qed

theorem merge_marks_spend_witness:
  "indexer_history_fetched 0 [example_output] [example_spend] [example_spent, example_confirmed]
     = Inr (0, example_merged) \<and>
   add_outputs [example_output] [example_spent, example_confirmed]
     = Inr [example_spent, example_confirmed, unconfirmed_row example_output] \<and>
   example_spend \<in> set [example_spend] \<and>
   1 < length [example_spent, example_confirmed, unconfirmed_row example_output] \<and>
   spend (example_merged ! 1) = \<lparr>hash = 2, index = 0\<rparr> \<and>
   spend_height (example_merged ! 1) = 0 \<and>
   output (example_merged ! 1) = \<lparr>hash = 1, index = 0\<rparr> \<and>
   output_height (example_merged ! 1) = 100 \<and>
   history_row.value (example_merged ! 1) = 500"
proof -
  have m: "example_spend \<in> set [example_spend]" by simp
  have i: "1 < length [example_spent, example_confirmed, unconfirmed_row example_output]"
    by simp
  have u: "\<forall>j<length [example_spent, example_confirmed, unconfirmed_row example_output].
      output ([example_spent, example_confirmed, unconfirmed_row example_output] ! j) =
        spend_info_type.previous_output example_spend \<longleftrightarrow> j = 1"
    by (simp add: example_defs unconfirmed_row_def less_Suc_eq all_conj_distrib)
  from merge_marks_spend [OF example_merge example_add_outputs m i u]
  have "spend (example_merged ! 1) = \<lparr>hash = 2, index = 0\<rparr> \<and>
   spend_height (example_merged ! 1) = 0 \<and>
   output (example_merged ! 1) = \<lparr>hash = 1, index = 0\<rparr> \<and>
   output_height (example_merged ! 1) = 100 \<and>
   history_row.value (example_merged ! 1) = 500"
    by (simp add: example_spend_def example_confirmed_def)
  with example_merge example_add_outputs m i show ?thesis by blast
qed

text \<open>
  Claim C4. When the merge hands a result to \<^verbatim>\<open>handle_fetch\<close>, the result contains for
  every unconfirmed output a row with that output's point as \<open>output\<close>, \<open>output_height\<close>
  0 and the output's value; the row's \<open>spend\<close> is the sentinel input point
  \<open>(null_hash, max_index)\<close> and its \<open>spend_height\<close> is \<open>max_height\<close>, unless an
  unconfirmed spend has this output as its \<open>previous_output\<close>, in which case the row
  carries that spend's input point and \<open>spend_height\<close> 0.
\<close>

theorem merge_adds_unconfirmed_output:
  assumes "indexer_history_fetched 0 output_infos spend_infos history = Inr (ec, result)"
    and "output_info \<in> set output_infos"
  shows "\<exists>row\<in>set result.
           output row = output_info_type.point output_info \<and>
           output_height row = 0 \<and>
           history_row.value row = output_info_type.value output_info \<and>
           (spend row = \<lparr>hash = null_hash, index = max_index\<rparr> \<and> spend_height row = max_height \<or>
            (\<exists>spend_info\<in>set spend_infos.
               spend_info_type.previous_output spend_info = output_info_type.point output_info \<and>
               spend row = spend_info_type.point spend_info \<and> spend_height row = 0))"
proof -
  let ?acc = "history @ map unconfirmed_row output_infos"
  from indexer_history_fetched_steps[OF assms(1)]
  have ms: "mark_spends spend_infos ?acc = Inr result" by simp
  from assms(2) obtain j where j: "j < length output_infos" "output_infos ! j = output_info"
    by (auto simp: in_set_conv_nth)
  let ?i = "length history + j"
  have i: "?i < length ?acc" using j(1) by simp
  have acc_i: "?acc ! ?i = unconfirmed_row output_info"
    using j by (simp add: nth_append)
  have "?i < length result" using i mark_spends_length[OF ms] by simp
  then have mem: "result ! ?i \<in> set result" by (rule nth_mem)
  from mark_spends_row[OF ms i]
  show ?thesis unfolding acc_i
  proof (elim disjE bexE conjE)
    assume "result ! ?i = unconfirmed_row output_info"
    with mem show ?thesis
      by (intro bexI[of _ "result ! ?i"]) (simp_all add: unconfirmed_row_def)
  next
    fix s
    assume 2: "s \<in> set spend_infos"
        "output (unconfirmed_row output_info) = spend_info_type.previous_output s"
        "result ! ?i = (unconfirmed_row output_info)\<lparr>spend := spend_info_type.point s, spend_height := 0\<rparr>"
    have "output (result ! ?i) = output_info_type.point output_info \<and>
           output_height (result ! ?i) = 0 \<and>
           history_row.value (result ! ?i) = output_info_type.value output_info \<and>
           spend_info_type.previous_output s = output_info_type.point output_info \<and>
           spend (result ! ?i) = spend_info_type.point s \<and> spend_height (result ! ?i) = 0"
      using 2(2) unfolding 2(3) by (simp add: unconfirmed_row_def)
    with mem 2(1) show ?thesis by blast
  qed
qed

theorem merge_adds_unconfirmed_output_witness:
  "indexer_history_fetched 0 [example_output] [example_spend] [example_spent, example_confirmed]
     = Inr (0, example_merged) \<and>
   example_output \<in> set [example_output] \<and>
   (\<exists>row\<in>set example_merged.
           output row = output_info_type.point example_output \<and>
           output_height row = 0 \<and>
           history_row.value row = output_info_type.value example_output \<and>
           (spend row = \<lparr>hash = null_hash, index = max_index\<rparr> \<and> spend_height row = max_height \<or>
            (\<exists>spend_info\<in>set [example_spend].
               spend_info_type.previous_output spend_info = output_info_type.point example_output \<and>
               spend row = spend_info_type.point spend_info \<and> spend_height row = 0)))"
proof -
  have m: "example_output \<in> set [example_output]" by simp
  from merge_adds_unconfirmed_output [OF example_merge m] example_merge m
  show ?thesis by blast
qed

lemma add_outputs_outputs:
  "output ` set (history @ map unconfirmed_row output_infos) =
     output ` set history \<union> output_info_type.point ` set output_infos"
  by (simp add: image_Un image_image unconfirmed_row_def)

lemma add_outputs_stop:
  "add_outputs output_infos rows = Inl stop \<Longrightarrow> stop = Output_conflict"
proof (induction output_infos arbitrary: rows)
  case Nil
  then show ?case by simp
next
  case (Cons output_info output_infos)
  have c: "assert_no_conflict output_info rs = Inl stop \<Longrightarrow> stop = Output_conflict" for rs
    by (induction rs) (auto split: if_splits)
  from Cons show ?case
    by (cases "assert_no_conflict output_info rows") (auto dest: c)
qed

lemma mark_spend_stop:
  "mark_spend spend_info rows = Inl stop \<Longrightarrow> stop = Spend_height_set \<or> stop = Spend_point_set"
  by (induction rows) (auto split: if_splits sum.splits)

lemma mark_spends_stop:
  "mark_spends spend_infos rows = Inl stop \<Longrightarrow>
     stop = Spend_height_set \<or> stop = Spend_point_set \<or> stop = Output_not_found"
proof (induction spend_infos arbitrary: rows)
  case Nil
  then show ?case by simp
next
  case (Cons spend_info spend_infos)
  show ?case
  proof (cases "mark_spend spend_info rows")
    case (Inl e)
    with Cons.prems have "mark_spend spend_info rows = Inl stop" by simp
    from mark_spend_stop[OF this] show ?thesis by blast
  next
    case (Inr r)
    obtain found mid where r: "r = (found, mid)" by (cases r)
    show ?thesis
    proof (cases found)
      case True
      with Inr r Cons.prems have "mark_spends spend_infos mid = Inl stop" by simp
      then show ?thesis by (rule Cons.IH)
    next
      case False
      with Inr r Cons.prems show ?thesis by simp
    qed
  qed
qed

lemma indexer_history_fetched_stop:
  assumes "indexer_history_fetched ec output_infos spend_infos history = Inl stop"
  shows "stop = Output_conflict \<or> stop = Spend_height_set \<or> stop = Spend_point_set \<or>
         stop = Output_not_found"
proof (cases "add_outputs output_infos history")
  case (Inl e)
  with assms have "add_outputs output_infos history = Inl stop"
    by (simp add: indexer_history_fetched_def split: if_splits)
  from add_outputs_stop[OF this] show ?thesis by simp
next
  case (Inr acc)
  with assms have "mark_spends spend_infos acc = Inl stop"
    by (simp add: indexer_history_fetched_def split: if_splits sum.splits)
  from mark_spends_stop[OF this] show ?thesis by blast
qed

lemma mark_spends_unmatched_first:
  assumes "spend_info_type.previous_output spend_info \<notin> output ` set rows"
  shows "mark_spends (spend_info # spend_infos) rows = Inl Output_not_found"
  using mark_spend_absent[OF assms] by simp

text \<open>
  Claim C5, in the form that holds of the code. If the \<open>previous_output\<close> of some
  unconfirmed spend is the output of no confirmed row and the point of no unconfirmed
  output, the merge does not reach \<^verbatim>\<open>handle_fetch\<close>, neither with a history nor with
  an error: it stops at a failed assertion of the merge ("Couldn't find output for adding
  spend", or one that fails before it), which ends the process. So the spend is not
  skipped silently, and no error is passed to the caller either.
\<close>

theorem merge_unmatched_spend_fails:
  assumes "spend_info \<in> set spend_infos"
    and "spend_info_type.previous_output spend_info \<notin> output ` set history"
    and "spend_info_type.previous_output spend_info \<notin> output_info_type.point ` set output_infos"
  shows "\<exists>stop. indexer_history_fetched 0 output_infos spend_infos history = Inl stop \<and>
           (stop = Output_not_found \<or> stop = Output_conflict \<or>
            stop = Spend_height_set \<or> stop = Spend_point_set)"
proof -
  have "\<exists>stop. indexer_history_fetched 0 output_infos spend_infos history = Inl stop"
  proof (cases "add_outputs output_infos history")
    case (Inl stop)
    then show ?thesis by (simp add: indexer_history_fetched_def)
  next
    case (Inr acc)
    from add_outputs_rows[OF Inr] have acc: "acc = history @ map unconfirmed_row output_infos" .
    have "spend_info_type.previous_output spend_info \<notin> output ` set acc"
      unfolding acc add_outputs_outputs using assms(2,3) by blast
    from mark_spends_unmatched[OF assms(1) this] obtain stop
      where "mark_spends spend_infos acc = Inl stop" by blast
    with Inr show ?thesis by (simp add: indexer_history_fetched_def)
  qed
  then obtain stop
    where s: "indexer_history_fetched 0 output_infos spend_infos history = Inl stop" by blast
  from indexer_history_fetched_stop[OF s] s show ?thesis by blast
qed

theorem merge_unmatched_spend_fails_witness:
  "example_spend \<in> set [example_spend] \<and>
   spend_info_type.previous_output example_spend \<notin> output ` set [example_spent] \<and>
   spend_info_type.previous_output example_spend \<notin> output_info_type.point ` set [example_output] \<and>
   indexer_history_fetched 0 [example_output] [example_spend] [example_spent] =
     Inl Output_not_found"
proof -
  have m: "example_spend \<in> set [example_spend]" by simp
  have a: "spend_info_type.previous_output example_spend \<notin> output ` set [example_spent]"
    by (simp add: example_defs)
  have b: "spend_info_type.previous_output example_spend \<notin>
      output_info_type.point ` set [example_output]"
    by (simp add: example_defs)
  from merge_unmatched_spend_fails [OF m a b] obtain stop
    where s: "indexer_history_fetched 0 [example_output] [example_spend] [example_spent] = Inl stop"
    by blast
  have "indexer_history_fetched 0 [example_output] [example_spend] [example_spent] =
      Inl Output_not_found"
    using s by (simp add: indexer_history_fetched_def example_defs unconfirmed_row_def)
  with m a b show ?thesis by blast
qed

text \<open>
  With no confirmed row and no unconfirmed output, the one unconfirmed spend matches
  nothing. The outcome is the failed assertion "Couldn't find output for adding spend";
  it is not a call of \<^verbatim>\<open>handle_fetch\<close> with an error code and an empty history.
\<close>

theorem merge_unmatched_spend_is_assertion:
  "indexer_history_fetched 0 [] [example_spend] [] = Inl Output_not_found"
  by (simp add: indexer_history_fetched_def)

text \<open>
  Claim C9. When the merge hands a result to \<^verbatim>\<open>handle_fetch\<close>, a confirmed row whose
  \<open>spend_height\<close> is not \<open>max_height\<close> has its \<open>spend\<close> and \<open>spend_height\<close> unchanged in
  the result. More generally, split the unconfirmed spends at any point into \<open>earlier\<close>
  and \<open>later\<close>: the rows as they are after the earlier spends are the result of the merge
  with only those spends, and every row that is spent by then (\<open>spend_height\<close> not
  \<open>max_height\<close>, which includes every row a spend has been written to) keeps its \<open>spend\<close>
  and \<open>spend_height\<close> through the later spends. So the two fields of a row are written
  at most once.
\<close>

theorem merge_spend_write_once:
  assumes "indexer_history_fetched 0 output_infos (earlier @ later) history = Inr (ec, result)"
  shows "(\<forall>i<length history. spend_height (history ! i) \<noteq> max_height \<longrightarrow>
            spend (result ! i) = spend (history ! i) \<and>
            spend_height (result ! i) = spend_height (history ! i)) \<and>
         (\<exists>mid. indexer_history_fetched 0 output_infos earlier history = Inr (0, mid) \<and>
            length result = length mid \<and>
            (\<forall>i<length mid. spend_height (mid ! i) \<noteq> max_height \<longrightarrow>
               spend (result ! i) = spend (mid ! i) \<and>
               spend_height (result ! i) = spend_height (mid ! i)))"
proof -
  let ?acc = "history @ map unconfirmed_row output_infos"
  from indexer_history_fetched_steps[OF assms]
  have ao: "add_outputs output_infos history = Inr ?acc"
    and ms: "mark_spends (earlier @ later) ?acc = Inr result" by simp_all
  from ms obtain mid where mid: "mark_spends earlier ?acc = Inr mid"
      "mark_spends later mid = Inr result"
    by (auto simp: mark_spends_append split: sum.splits)
  have first: "spend (result ! i) = spend (history ! i) \<and>
            spend_height (result ! i) = spend_height (history ! i)"
    if "i < length history" "spend_height (history ! i) \<noteq> max_height" for i
  proof -
    from that have "i < length ?acc" "spend_height (?acc ! i) \<noteq> max_height"
      by (simp_all add: nth_append)
    from mark_spends_write_once[OF ms this] that(1) show ?thesis
      by (simp add: nth_append)
  qed
  have e: "indexer_history_fetched 0 output_infos earlier history = Inr (0, mid)"
    using ao mid(1) by (simp add: indexer_history_fetched_def)
  have len: "length result = length mid" using mid(2) by (rule mark_spends_length)
  have second: "spend (result ! i) = spend (mid ! i) \<and>
               spend_height (result ! i) = spend_height (mid ! i)"
    if "i < length mid" "spend_height (mid ! i) \<noteq> max_height" for i
    using mark_spends_write_once[OF mid(2) that] by simp
  from first e len second show ?thesis by blast
qed

theorem merge_spend_write_once_witness:
  "indexer_history_fetched 0 [example_output] ([example_spend] @ [])
       [example_spent, example_confirmed] = Inr (0, example_merged) \<and>
   spend_height example_spent \<noteq> max_height \<and>
   spend (example_merged ! 0) = spend example_spent \<and>
   spend_height (example_merged ! 0) = spend_height example_spent \<and>
   (\<exists>mid. indexer_history_fetched 0 [example_output] [example_spend]
              [example_spent, example_confirmed] = Inr (0, mid) \<and>
            length example_merged = length mid \<and>
            (\<forall>i<length mid. spend_height (mid ! i) \<noteq> max_height \<longrightarrow>
               spend (example_merged ! i) = spend (mid ! i) \<and>
               spend_height (example_merged ! i) = spend_height (mid ! i)))"
proof -
  have h: "indexer_history_fetched 0 [example_output] ([example_spend] @ [])
       [example_spent, example_confirmed] = Inr (0, example_merged)"
    using example_merge by simp
  have sp: "spend_height example_spent \<noteq> max_height"
    by (simp add: example_spent_def max_height_def)
  note t = merge_spend_write_once [OF h]
  from t have "\<forall>i<length [example_spent, example_confirmed].
       spend_height ([example_spent, example_confirmed] ! i) \<noteq> max_height \<longrightarrow>
            spend (example_merged ! i) = spend ([example_spent, example_confirmed] ! i) \<and>
            spend_height (example_merged ! i) =
              spend_height ([example_spent, example_confirmed] ! i)"
    by (rule conjunct1)
  with sp have a: "spend (example_merged ! 0) = spend example_spent \<and>
      spend_height (example_merged ! 0) = spend_height example_spent"
    by simp
  from t have b: "\<exists>mid. indexer_history_fetched 0 [example_output] [example_spend]
              [example_spent, example_confirmed] = Inr (0, mid) \<and>
            length example_merged = length mid \<and>
            (\<forall>i<length mid. spend_height (mid ! i) \<noteq> max_height \<longrightarrow>
               spend (example_merged ! i) = spend (mid ! i) \<and>
               spend_height (example_merged ! i) = spend_height (mid ! i))"
    by (rule conjunct2)
  from h sp a b show ?thesis by blast
qed

end
